theory Spec2Isabelle
  imports Complex_Main
begin

section \<open>The node model of \<^verbatim>\<open>micrograd/engine.py\<close>\<close>

text \<open>
  The engine builds a graph of \<^verbatim>\<open>Value\<close> objects that reference each other and
  are mutated in place by the backward pass.  The objects live in a heap: a list
  of nodes, an object's identity being its index.  A new object is appended, so
  every object that existed before keeps its address.

  A Python \<^verbatim>\<open>float\<close> is modelled as the real number it stands for: rounding,
  signed zeros, infinities and NaN are not modelled, and a sum or a product is
  the exact one.  Every exception of the code is modelled.  The only operator of
  the code that raises on numbers is \<^verbatim>\<open>**\<close>: \<^verbatim>\<open>ZeroDivisionError\<close> for a zero base
  with a negative exponent, \<^verbatim>\<open>OverflowError\<close> when the exponent or the result is
  beyond the range of \<^verbatim>\<open>float\<close>.  For a negative base and a fractional exponent it
  returns a \<^verbatim>\<open>complex\<close> number, which the node then holds; on such a value the
  comparison in \<^verbatim>\<open>relu\<close> raises \<^verbatim>\<open>TypeError\<close>.
\<close>

type_synonym addr = nat

text \<open>A Python number: an \<^verbatim>\<open>int\<close> or \<^verbatim>\<open>float\<close>, or a \<^verbatim>\<open>complex\<close>.\<close>

datatype pynum = Float real | Cplx complex

text \<open>
  The closure stored in \<^verbatim>\<open>_backward\<close>.  Each constructor is one of the nested
  \<^verbatim>\<open>def _backward()\<close> bodies together with the variables it captures
  (\<^verbatim>\<open>self\<close>, \<^verbatim>\<open>other\<close>, \<^verbatim>\<open>out\<close>); \<open>Noop\<close> is \<^verbatim>\<open>lambda: None\<close>.
\<close>

datatype closure =
    Noop
  | AddBackward addr addr addr
  | MulBackward addr addr addr
  | PowBackward addr real addr
  | ReluBackward addr addr

text \<open>
  The attributes of a \<^verbatim>\<open>Value\<close>; \<open>v_backward\<close> and \<open>v_prev\<close> are the
  attributes \<^verbatim>\<open>_backward\<close> and \<^verbatim>\<open>_prev\<close>.
\<close>

record Value =
  data :: pynum
  grad :: pynum
  v_backward :: closure
  v_prev :: "addr set"

type_synonym heap = "Value list"

text \<open>An argument of an operator: a plain number or a \<^verbatim>\<open>Value\<close> object.\<close>

datatype operand = Plain pynum | Node addr

text \<open>The exceptions the code can raise.\<close>

datatype error = AssertionError | ZeroDivisionError | OverflowError | TypeError

subsection \<open>Python's arithmetic\<close>

fun to_complex :: "pynum \<Rightarrow> complex" where
  "to_complex (Float x) = of_real x"
| "to_complex (Cplx z) = z"

text \<open>\<^verbatim>\<open>+\<close>, \<^verbatim>\<open>*\<close> and unary \<^verbatim>\<open>-\<close>: complex as soon as one operand is.\<close>

fun py_add :: "pynum \<Rightarrow> pynum \<Rightarrow> pynum" where
  "py_add (Float x) (Float y) = Float (x + y)"
| "py_add a b = Cplx (to_complex a + to_complex b)"

fun py_mul :: "pynum \<Rightarrow> pynum \<Rightarrow> pynum" where
  "py_mul (Float x) (Float y) = Float (x * y)"
| "py_mul a b = Cplx (to_complex a * to_complex b)"

fun py_neg :: "pynum \<Rightarrow> pynum" where
  "py_neg (Float x) = Float (- x)"
| "py_neg (Cplx z) = Cplx (- z)"

text \<open>\<^verbatim>\<open>a < c\<close> and \<^verbatim>\<open>a > c\<close> against an \<^verbatim>\<open>int\<close>: not defined on \<^verbatim>\<open>complex\<close>.\<close>

fun py_less :: "pynum \<Rightarrow> real \<Rightarrow> error + bool" where
  "py_less (Float x) c = Inr (x < c)"
| "py_less (Cplx z) c = Inl TypeError"

fun py_greater :: "pynum \<Rightarrow> real \<Rightarrow> error + bool" where
  "py_greater (Float x) c = Inr (c < x)"
| "py_greater (Cplx z) c = Inl TypeError"

subsection \<open>Python's \<^verbatim>\<open>**\<close>\<close>

definition is_integral :: "real \<Rightarrow> bool" where
  "is_integral k \<longleftrightarrow> k = of_int \<lfloor>k\<rfloor>"

text \<open>
  The reals that do not round to a finite \<^verbatim>\<open>float\<close>: an \<^verbatim>\<open>int\<close> this large
  cannot be converted (\<^verbatim>\<open>OverflowError: int too large to convert to float\<close>), a
  result this large is out of range (\<^verbatim>\<open>OverflowError\<close>).  The bound is the
  midpoint between the largest \<^verbatim>\<open>float\<close> and \<open>2\<^sup>1\<^sup>0\<^sup>2\<^sup>4\<close>.
\<close>

definition too_large :: "real \<Rightarrow> bool" where
  "too_large r \<longleftrightarrow> 2 ^ 1024 - 2 ^ 970 \<le> \<bar>r\<bar>"

definition c_too_large :: "complex \<Rightarrow> bool" where
  "c_too_large z \<longleftrightarrow> too_large (Re z) \<or> too_large (Im z)"

text \<open>The angle of the point \<open>(x, y)\<close>, C's \<^verbatim>\<open>atan2(y, x)\<close>.\<close>

definition atan2 :: "real \<Rightarrow> real \<Rightarrow> real" where
  "atan2 y x =
     (if 0 < x then arctan (y / x)
      else if x < 0 then (if 0 \<le> y then arctan (y / x) + pi else arctan (y / x) - pi)
      else if 0 < y then pi / 2
      else if y < 0 then - pi / 2
      else 0)"

text \<open>
  The power of a complex base: by repeated multiplication or division at an
  integer exponent, in polar form otherwise.
\<close>

definition c_pow :: "complex \<Rightarrow> real \<Rightarrow> complex" where
  "c_pow z k =
     (if is_integral k then z powi \<lfloor>k\<rfloor>
      else of_real (cmod z powr k) * cis (k * atan2 (Im z) (Re z)))"

declare c_pow_def [code del]

text \<open>
  \<^verbatim>\<open>base ** k\<close> for a plain \<^verbatim>\<open>int\<close>/\<^verbatim>\<open>float\<close> exponent \<open>k\<close>.  The exponent is
  converted to \<^verbatim>\<open>float\<close> first.  A \<^verbatim>\<open>float\<close> base that is negative, with an
  exponent that is not an integer, is handed to the complex power.
\<close>

fun py_pow :: "pynum \<Rightarrow> real \<Rightarrow> error + pynum" where
  "py_pow (Float x) k =
     (if too_large k then Inl OverflowError
      else if x = 0 \<and> k < 0 then Inl ZeroDivisionError
      else if x < 0 \<and> \<not> is_integral k then
        (if c_too_large (c_pow (of_real x) k) then Inl OverflowError
         else Inr (Cplx (c_pow (of_real x) k)))
      else if is_integral k then
        (if too_large (x powi \<lfloor>k\<rfloor>) then Inl OverflowError else Inr (Float (x powi \<lfloor>k\<rfloor>)))
      else
        (if too_large (x powr k) then Inl OverflowError else Inr (Float (x powr k))))"
| "py_pow (Cplx z) k =
     (if too_large k then Inl OverflowError
      else if z = 0 \<and> k < 0 then Inl ZeroDivisionError
      else if c_too_large (c_pow z k) then Inl OverflowError
      else Inr (Cplx (c_pow z k)))"

subsection \<open>Construction\<close>

text \<open>\<^verbatim>\<open>Value.__init__(data, _children)\<close>: the new object and its address.\<close>

definition Value_init :: "heap \<Rightarrow> pynum \<Rightarrow> addr list \<Rightarrow> heap \<times> addr" where
  "Value_init h d children =
     (h @ [\<lparr>data = d, grad = Float 0, v_backward = Noop, v_prev = set children\<rparr>],
      length h)"

text \<open>\<^verbatim>\<open>other if isinstance(other, Value) else Value(other)\<close>\<close>

fun wrap :: "heap \<Rightarrow> operand \<Rightarrow> heap \<times> addr" where
  "wrap h (Node b) = (h, b)"
| "wrap h (Plain c) = Value_init h c []"

text \<open>\<^verbatim>\<open>out._backward = _backward\<close>\<close>

definition set_backward :: "heap \<Rightarrow> addr \<Rightarrow> closure \<Rightarrow> heap" where
  "set_backward h out f = h[out := (h ! out)\<lparr>v_backward := f\<rparr>]"

definition add :: "heap \<Rightarrow> addr \<Rightarrow> operand \<Rightarrow> heap \<times> addr" where
  "add h self other =
     (let (h1, b) = wrap h other;
          (h2, out) = Value_init h1 (py_add (data (h1 ! self)) (data (h1 ! b))) [self, b]
      in (set_backward h2 out (AddBackward self b out), out))"

definition mul :: "heap \<Rightarrow> addr \<Rightarrow> operand \<Rightarrow> heap \<times> addr" where
  "mul h self other =
     (let (h1, b) = wrap h other;
          (h2, out) = Value_init h1 (py_mul (data (h1 ! self)) (data (h1 ! b))) [self, b]
      in (set_backward h2 out (MulBackward self b out), out))"

text \<open>
  \<^verbatim>\<open>__pow__\<close>: the assertion comes first and passes for an \<^verbatim>\<open>int\<close> or a
  \<^verbatim>\<open>float\<close> only, then \<^verbatim>\<open>self.data ** other\<close> is evaluated, and only then is the
  output object made.  The heap is returned in every case, so that a failed call
  shows what it left behind.
\<close>

fun pow :: "heap \<Rightarrow> addr \<Rightarrow> operand \<Rightarrow> heap \<times> (error + addr)" where
  "pow h self (Node b) = (h, Inl AssertionError)"
| "pow h self (Plain (Cplx z)) = (h, Inl AssertionError)"
| "pow h self (Plain (Float k)) =
     (case py_pow (data (h ! self)) k of
        Inl e \<Rightarrow> (h, Inl e)
      | Inr d \<Rightarrow>
          (let (h1, out) = Value_init h d [self]
           in (set_backward h1 out (PowBackward self k out), Inr out)))"

text \<open>\<^verbatim>\<open>__neg__\<close>: \<^verbatim>\<open>self * -1\<close>\<close>

definition neg :: "heap \<Rightarrow> addr \<Rightarrow> heap \<times> addr" where
  "neg h self = mul h self (Plain (Float (- 1)))"

text \<open>
  \<^verbatim>\<open>__sub__\<close>: \<^verbatim>\<open>self + (-other)\<close>.  The unary minus is \<^verbatim>\<open>__neg__\<close> when
  \<^verbatim>\<open>other\<close> is a \<^verbatim>\<open>Value\<close> and the negation of numbers otherwise.
\<close>

fun sub :: "heap \<Rightarrow> addr \<Rightarrow> operand \<Rightarrow> heap \<times> addr" where
  "sub h self (Node b) = (let (h1, nb) = neg h b in add h1 self (Node nb))"
| "sub h self (Plain c) = add h self (Plain (py_neg c))"

text \<open>
  \<^verbatim>\<open>__truediv__\<close>: \<^verbatim>\<open>self * other ** -1\<close>; the power binds tighter and is
  evaluated first, by \<^verbatim>\<open>__pow__\<close> for a \<^verbatim>\<open>Value\<close> and on numbers otherwise.
\<close>

fun truediv :: "heap \<Rightarrow> addr \<Rightarrow> operand \<Rightarrow> heap \<times> (error + addr)" where
  "truediv h self (Node b) =
     (case pow h b (Plain (Float (- 1))) of
        (h1, Inl e) \<Rightarrow> (h1, Inl e)
      | (h1, Inr p) \<Rightarrow> (let (h2, out) = mul h1 self (Node p) in (h2, Inr out)))"
| "truediv h self (Plain c) =
     (case py_pow c (- 1) of
        Inl e \<Rightarrow> (h, Inl e)
      | Inr r \<Rightarrow> (let (h2, out) = mul h self (Plain r) in (h2, Inr out)))"

text \<open>
  \<^verbatim>\<open>relu\<close>: \<^verbatim>\<open>0 if self.data < 0 else self.data\<close> is evaluated before the output
  object is made.
\<close>

definition relu :: "heap \<Rightarrow> addr \<Rightarrow> heap \<times> (error + addr)" where
  "relu h self =
     (case py_less (data (h ! self)) 0 of
        Inl e \<Rightarrow> (h, Inl e)
      | Inr negative \<Rightarrow>
          (let (h1, out) = Value_init h (if negative then Float 0 else data (h ! self)) [self]
           in (set_backward h1 out (ReluBackward self out), Inr out)))"

subsection \<open>The derivative rules\<close>

text \<open>\<^verbatim>\<open>v.grad += x\<close>\<close>

definition add_grad :: "heap \<Rightarrow> addr \<Rightarrow> pynum \<Rightarrow> heap" where
  "add_grad h v x = h[v := (h ! v)\<lparr>grad := py_add (grad (h ! v)) x\<rparr>]"

text \<open>
  Calling a closure.  The two statements of the rules of \<^verbatim>\<open>__add__\<close> and
  \<^verbatim>\<open>__mul__\<close> run one after the other, the second reading the heap the first
  has written.  The rules of \<^verbatim>\<open>__pow__\<close> and \<^verbatim>\<open>relu\<close> evaluate their right-hand
  side before they assign, so they either raise or update.
\<close>

fun call :: "heap \<Rightarrow> closure \<Rightarrow> error + heap" where
  "call h Noop = Inr h"
| "call h (AddBackward self other out) =
     (let h1 = add_grad h self (py_mul (grad (h ! out)) (Float 1))
      in Inr (add_grad h1 other (py_mul (grad (h1 ! out)) (Float 1))))"
| "call h (MulBackward self other out) =
     (let h1 = add_grad h self (py_mul (grad (h ! out)) (data (h ! other)))
      in Inr (add_grad h1 other (py_mul (grad (h1 ! out)) (data (h1 ! self)))))"
| "call h (PowBackward self k out) =
     (case py_pow (data (h ! self)) (k - 1) of
        Inl e \<Rightarrow> Inl e
      | Inr p \<Rightarrow> Inr (add_grad h self (py_mul (grad (h ! out)) (py_mul (Float k) p))))"
| "call h (ReluBackward self out) =
     (case py_greater (data (h ! out)) 0 of
        Inl e \<Rightarrow> Inl e
      | Inr positive \<Rightarrow>
          Inr (add_grad h self
                 (py_mul (grad (h ! out)) (Float (if positive then 1 else 0)))))"

subsection \<open>The traversal\<close>

text \<open>
  \<^verbatim>\<open>_prev\<close> is a Python set, and \<^verbatim>\<open>for child in v._prev\<close> visits it in an order
  the language does not fix.  The order is a parameter: \<open>ord v S\<close> is the order
  in which the set \<open>S\<close> held by the object \<open>v\<close> is iterated.
\<close>

type_synonym set_order = "addr \<Rightarrow> addr set \<Rightarrow> addr list"

definition iterates :: "set_order \<Rightarrow> bool" where
  "iterates ord \<longleftrightarrow> (\<forall>v S. finite S \<longrightarrow> set (ord v S) = S \<and> distinct (ord v S))"

text \<open>
  The elements \<^verbatim>\<open>for child in v._prev\<close> yields.  An address outside the heap is
  no object; it has no children.
\<close>

definition children :: "set_order \<Rightarrow> heap \<Rightarrow> addr \<Rightarrow> addr list" where
  "children ord h v = (if v < length h then ord v (v_prev (h ! v)) else [])"

text \<open>The two variables \<^verbatim>\<open>build_topo\<close> closes over.\<close>

record tstate =
  visited :: "addr set"
  topo :: "addr list"

text \<open>
  \<^verbatim>\<open>build_topo\<close>, with its \<^verbatim>\<open>for\<close> loop as \<open>build_children\<close>.  Python's limit
  on the depth of recursion is not modelled.
\<close>

function build_topo :: "set_order \<Rightarrow> heap \<Rightarrow> addr \<Rightarrow> tstate \<Rightarrow> tstate"
  and build_children :: "set_order \<Rightarrow> heap \<Rightarrow> addr list \<Rightarrow> tstate \<Rightarrow> tstate" where
  "build_topo ord h v st =
     (if v \<notin> visited st then
        (let st1 = build_children ord h (children ord h v) (st\<lparr>visited := insert v (visited st)\<rparr>)
         in st1\<lparr>topo := topo st1 @ [v]\<rparr>)
      else st)"
| "build_children ord h [] st = st"
| "build_children ord h (c # cs) st = build_children ord h cs (build_topo ord h c st)"
  by pat_completeness auto

termination
proof -
  have mono:
    "build_topo_build_children_dom (Inl (ord, h, v, st)) \<Longrightarrow>
       visited st \<subseteq> visited (build_topo ord h v st)"
    "build_topo_build_children_dom (Inr (ord, h, cs, st)) \<Longrightarrow>
       visited st \<subseteq> visited (build_children ord h cs st)"
    for ord h v cs st
  proof (induction ord h v st and ord h cs st rule: build_topo_build_children.pinduct)
    case (1 ord h v st)
    then show ?case by (auto simp: build_topo.psimps Let_def)
  next
    case (2 ord h st)
    then show ?case by (simp add: build_children.psimps)
  next
    case (3 ord h c cs st)
    then show ?case by (auto simp: build_children.psimps)
  qed
  show ?thesis
  proof (relation "inv_image (less_than <*lex*> less_than)
      (\<lambda>x. case x of
          Inl (ord, h, v, st) \<Rightarrow> (card ({..<length h} - visited st), 1)
        | Inr (ord, h, cs, st) \<Rightarrow> (card ({..<length h} - visited st), 2 * length cs))",
      goal_cases)
    case 1
    show ?case by (intro wf_inv_image wf_lex_prod wf_less_than)
  next
    case (2 ord h v st)
    show ?case
    proof (cases "v < length h")
      case True
      with 2 have "card ({..<length h} - insert v (visited st))
          < card ({..<length h} - visited st)"
        by (intro psubset_card_mono) auto
      then show ?thesis by simp
    next
      case False
      then have "{..<length h} - insert v (visited st) = {..<length h} - visited st" by auto
      with False show ?thesis by (simp add: children_def)
    qed
  next
    case (3 ord h c cs st)
    show ?case by simp
  next
    case (4 ord h c cs st)
    have "visited st \<subseteq> visited (build_topo ord h c st)"
      using 4 by (rule mono(1))
    then have "card ({..<length h} - visited (build_topo ord h c st))
        \<le> card ({..<length h} - visited st)"
      by (intro card_mono) auto
    then show ?case by auto
  qed
qed

text \<open>
  The recursion ends because every call that does any work marks an object of
  the heap that was not marked before.  For the call nested in the loop this
  needs that the marks only grow, which the proof shows first.
\<close>

text \<open>The list \<^verbatim>\<open>topo\<close> after \<^verbatim>\<open>build_topo(self)\<close>.\<close>

definition topo_order :: "set_order \<Rightarrow> heap \<Rightarrow> addr \<Rightarrow> addr list" where
  "topo_order ord h self = topo (build_topo ord h self \<lparr>visited = {}, topo = []\<rparr>)"

text \<open>
  \<^verbatim>\<open>for v in reversed(topo): v._backward()\<close>, given the reversed list.  A rule
  that raises ends the loop; the heap at that moment is returned with the
  exception.
\<close>

fun backward_loop :: "heap \<Rightarrow> addr list \<Rightarrow> heap \<times> error option" where
  "backward_loop h [] = (h, None)"
| "backward_loop h (v # vs) =
     (case call h (v_backward (h ! v)) of
        Inl e \<Rightarrow> (h, Some e)
      | Inr h' \<Rightarrow> backward_loop h' vs)"


text \<open>\<^verbatim>\<open>self.grad = 1\<close>\<close>

definition seed :: "heap \<Rightarrow> addr \<Rightarrow> heap" where
  "seed h self = h[self := (h ! self)\<lparr>grad := Float 1\<rparr>]"

definition backward :: "set_order \<Rightarrow> heap \<Rightarrow> addr \<Rightarrow> heap \<times> error option" where
  "backward ord h self =
     (let tp = topo_order ord h self
      in backward_loop (seed h self) (rev tp))"

subsection \<open>The graphs the operations build\<close>

text \<open>The objects a closure adds into.\<close>

fun operands :: "closure \<Rightarrow> addr set" where
  "operands Noop = {}"
| "operands (AddBackward self other out) = {self, other}"
| "operands (MulBackward self other out) = {self, other}"
| "operands (PowBackward self k out) = {self}"
| "operands (ReluBackward self out) = {self}"

text \<open>The object a closure reads the flowing gradient from is the one holding it.\<close>

fun held_by :: "closure \<Rightarrow> addr \<Rightarrow> bool" where
  "held_by Noop v = True"
| "held_by (AddBackward self other out) v = (out = v)"
| "held_by (MulBackward self other out) v = (out = v)"
| "held_by (PowBackward self k out) v = (out = v)"
| "held_by (ReluBackward self out) v = (out = v)"

text \<open>
  What every heap made by the constructors satisfies: an object's \<^verbatim>\<open>_prev\<close>
  holds the operands of its closure, which were made before it, and the closure
  is the one the operation attached to it.
\<close>

definition well_formed :: "heap \<Rightarrow> bool" where
  "well_formed h \<longleftrightarrow>
     (\<forall>v < length h.
        v_prev (h ! v) = operands (v_backward (h ! v)) \<and>
        (\<forall>c \<in> v_prev (h ! v). c < v) \<and>
        held_by (v_backward (h ! v)) v)"

definition parent_rel :: "heap \<Rightarrow> (addr \<times> addr) set" where
  "parent_rel h = {(v, c). v < length h \<and> c \<in> v_prev (h ! v)}"

text \<open>The objects reachable from \<open>r\<close> through \<^verbatim>\<open>_prev\<close>, \<open>r\<close> included.\<close>

definition reachable :: "heap \<Rightarrow> addr \<Rightarrow> addr set" where
  "reachable h r = {u. (r, u) \<in> (parent_rel h)\<^sup>*}"

text \<open>Every element of the list has its \<^verbatim>\<open>_prev\<close> at smaller positions.\<close>

definition parents_first :: "heap \<Rightarrow> addr list \<Rightarrow> bool" where
  "parents_first h xs \<longleftrightarrow>
     (\<forall>i < length xs. \<forall>c \<in> v_prev (h ! (xs ! i)). \<exists>j < i. xs ! j = c)"

text \<open>The objects \<^verbatim>\<open>build_topo\<close> has marked but not yet appended: its call stack.\<close>

definition pending :: "tstate \<Rightarrow> addr set" where
  "pending st = visited st - set (topo st)"

definition dfs_inv :: "heap \<Rightarrow> tstate \<Rightarrow> bool" where
  "dfs_inv h st \<longleftrightarrow>
     distinct (topo st) \<and> set (topo st) \<subseteq> visited st \<and> parents_first h (topo st)"

text \<open>An iteration order for the examples: by address.\<close>

definition by_address :: set_order where
  "by_address v S = sorted_list_of_set S"

text \<open>Two heaps that hold the same graph and differ in gradients only.\<close>

definition same_graph :: "heap \<Rightarrow> heap \<Rightarrow> bool" where
  "same_graph h h' \<longleftrightarrow>
     length h' = length h \<and>
     (\<forall>u < length h. data (h' ! u) = data (h ! u) \<and> v_prev (h' ! u) = v_prev (h ! u) \<and>
        v_backward (h' ! u) = v_backward (h ! u))"

text \<open>A leaf: an object made by \<^verbatim>\<open>Value(data)\<close> itself, not by an operation.\<close>

definition leaf :: "heap \<Rightarrow> addr \<Rightarrow> bool" where
  "leaf h x \<longleftrightarrow> x < length h \<and> v_backward (h ! x) = Noop \<and> v_prev (h ! x) = {}"

text \<open>\<^verbatim>\<open>[Value(d) for d in ds]\<close>, allocated after what the heap holds already.\<close>

definition new_leaves :: "heap \<Rightarrow> real list \<Rightarrow> heap" where
  "new_leaves h ds = fold (\<lambda>d h'. fst (Value_init h' (Float d) [])) ds h"

text \<open>A fresh object as an operation leaves it: gradient zero, \<^verbatim>\<open>_prev\<close> the operands.\<close>

definition node :: "pynum \<Rightarrow> closure \<Rightarrow> Value" where
  "node d f = \<lparr>data = d, grad = Float 0, v_backward = f, v_prev = operands f\<rparr>"

text \<open>
  The power \<open>x\<^sup>k\<close> of a real base, as the specification writes it: by repeated
  multiplication or division at an integer \<open>k\<close>; through the exponential at
  another \<open>k\<close> when \<open>x\<close> is not negative; and for a negative \<open>x\<close> the principal
  value \<open>\<bar>x\<bar>\<^sup>k (cos \<pi>k + i sin \<pi>k)\<close>, a complex number.
\<close>

definition power_value :: "real \<Rightarrow> real \<Rightarrow> pynum" where
  "power_value x k =
     (if is_integral k then Float (x powi \<lfloor>k\<rfloor>)
      else if 0 \<le> x then Float (x powr k)
      else Cplx (of_real (\<bar>x\<bar> powr k) * cis (pi * k)))"

text \<open>A number within the range of \<^verbatim>\<open>float\<close>, in each component.\<close>

fun in_range :: "pynum \<Rightarrow> bool" where
  "in_range (Float x) = (\<not> too_large x)"
| "in_range (Cplx z) = (\<not> c_too_large z)"

text \<open>
  The composite operations as the specification defines them:
  negate(a) = multiply(a, -1), subtract(a, b) = add(a, negate(b)),
  divide(a, b) = multiply(a, power(b, -1)).
\<close>

definition spec_negate :: "heap \<Rightarrow> addr \<Rightarrow> heap \<times> addr" where
  "spec_negate h a = mul h a (Plain (Float (- 1)))"

definition spec_subtract :: "heap \<Rightarrow> addr \<Rightarrow> addr \<Rightarrow> heap \<times> addr" where
  "spec_subtract h a b = (case spec_negate h b of (h1, nb) \<Rightarrow> add h1 a (Node nb))"

definition spec_divide :: "heap \<Rightarrow> addr \<Rightarrow> addr \<Rightarrow> heap \<times> (error + addr)" where
  "spec_divide h a b =
     (case pow h b (Plain (Float (- 1))) of
        (h1, Inl e) \<Rightarrow> (h1, Inl e)
      | (h1, Inr p) \<Rightarrow> (case mul h1 a (Node p) of (h2, out) \<Rightarrow> (h2, Inr out)))"

section \<open>Python's arithmetic\<close>

lemma py_add_commute: "py_add a b = py_add b a"
  by (cases a; cases b) (simp_all add: add.commute)

lemma py_add_assoc: "py_add (py_add a b) c = py_add a (py_add b c)"
  by (cases a; cases b; cases c) (simp_all add: add.assoc)

lemma py_add_right_commute: "py_add (py_add a b) c = py_add (py_add a c) b"
  by (cases a; cases b; cases c) (simp_all add: add.assoc add.commute)

lemma py_mul_commute: "py_mul a b = py_mul b a"
  by (cases a; cases b) (simp_all add: mult.commute)

lemma py_add_zero [simp]: "py_add (Float 0) a = a" "py_add a (Float 0) = a"
  by (cases a; simp)+

lemma py_mul_one [simp]: "py_mul (Float 1) a = a" "py_mul a (Float 1) = a"
  by (cases a; simp)+

lemma py_mul_zero_Float [simp]: "py_mul a (Float 0) = py_mul (Float 0) a"
  by (rule py_mul_commute)

section \<open>The traversal is a depth-first topological sort\<close>

lemma parents_first_Nil: "parents_first h []" by (simp add: parents_first_def)

lemma parents_first_snoc:
  "parents_first h xs \<Longrightarrow> v_prev (h ! v) \<subseteq> set xs \<Longrightarrow> parents_first h (xs @ [v])"
  unfolding parents_first_def
proof (intro allI impI ballI)
  fix i c
  assume pf: "\<forall>i<length xs. \<forall>c\<in>v_prev (h ! (xs ! i)). \<exists>j<i. xs ! j = c"
    and sub: "v_prev (h ! v) \<subseteq> set xs"
    and i: "i < length (xs @ [v])" and c: "c \<in> v_prev (h ! ((xs @ [v]) ! i))"
  show "\<exists>j<i. (xs @ [v]) ! j = c"
  proof (cases "i < length xs")
    case True
    with pf c obtain j where "j < i" "xs ! j = c" by (auto simp: nth_append)
    with True show ?thesis by (auto simp: nth_append intro!: exI[of _ j])
  next
    case False
    with i have "i = length xs" by simp
    with c sub have "c \<in> set xs" by auto
    then obtain j where "j < length xs" "xs ! j = c" by (auto simp: in_set_conv_nth)
    with \<open>i = length xs\<close> show ?thesis by (auto simp: nth_append intro!: exI[of _ j])
  qed
qed

lemma parents_first_closed:
  assumes "parents_first h xs" "u \<in> set xs" "w \<in> reachable h u"
  shows "w \<in> set xs"
proof -
  from assms(3) have "(u, w) \<in> (parent_rel h)\<^sup>*" by (simp add: reachable_def)
  then show ?thesis using assms(2)
  proof (induction rule: rtrancl_induct)
    case base
    then show ?case .
  next
    case (step y z)
    then have "y \<in> set xs" by simp
    then obtain i where i: "i < length xs" "xs ! i = y" by (auto simp: in_set_conv_nth)
    from step(2) have "z \<in> v_prev (h ! y)" by (simp add: parent_rel_def)
    with assms(1) i obtain j where "j < i" "xs ! j = z" by (auto simp: parents_first_def)
    with i show ?case by (auto simp: in_set_conv_nth intro!: exI[of _ j])
  qed
qed

lemma reachable_unfold:
  "v < length h \<Longrightarrow> reachable h v = insert v (\<Union>c \<in> v_prev (h ! v). reachable h c)"
proof (intro set_eqI iffI)
  fix u assume v: "v < length h" and "u \<in> reachable h v"
  then have "(v, u) \<in> (parent_rel h)\<^sup>*" by (simp add: reachable_def)
  then show "u \<in> insert v (\<Union>c \<in> v_prev (h ! v). reachable h c)"
  proof (cases rule: converse_rtranclE)
    case base
    then show ?thesis by simp
  next
    case (step c)
    then show ?thesis by (auto simp: parent_rel_def reachable_def)
  qed
next
  fix u assume v: "v < length h" and "u \<in> insert v (\<Union>c \<in> v_prev (h ! v). reachable h c)"
  then show "u \<in> reachable h v"
    by (auto simp: reachable_def parent_rel_def intro: converse_rtrancl_into_rtrancl)
qed

lemma reachable_self: "v \<in> reachable h v" by (simp add: reachable_def)

lemma children_set:
  assumes "well_formed h" "iterates ord" "v < length h"
  shows "set (children ord h v) = v_prev (h ! v)"
proof -
  from assms(1,3) have "v_prev (h ! v) = operands (v_backward (h ! v))"
    by (simp add: well_formed_def)
  moreover have "finite (operands f)" for f by (cases f) auto
  ultimately have "finite (v_prev (h ! v))" by simp
  with assms(2,3) show ?thesis by (simp add: children_def iterates_def)
qed

lemma well_formed_child_less:
  "well_formed h \<Longrightarrow> v < length h \<Longrightarrow> c \<in> v_prev (h ! v) \<Longrightarrow> c < v"
  by (auto simp: well_formed_def)

lemma dfs_step:
  "well_formed h \<Longrightarrow> iterates ord \<Longrightarrow> dfs_inv h st \<Longrightarrow> v < length h \<Longrightarrow>
     \<forall>u \<in> pending st. v < u \<Longrightarrow>
     dfs_inv h (build_topo ord h v st) \<and>
     pending (build_topo ord h v st) = pending st \<and>
     set (topo (build_topo ord h v st)) = set (topo st) \<union> reachable h v \<and>
     (\<exists>new. topo (build_topo ord h v st) = topo st @ new)"
  "well_formed h \<Longrightarrow> iterates ord \<Longrightarrow> dfs_inv h st \<Longrightarrow> \<forall>c \<in> set cs. c < length h \<Longrightarrow>
     \<forall>u \<in> pending st. \<forall>c \<in> set cs. c < u \<Longrightarrow>
     dfs_inv h (build_children ord h cs st) \<and>
     pending (build_children ord h cs st) = pending st \<and>
     set (topo (build_children ord h cs st)) = set (topo st) \<union> (\<Union>c \<in> set cs. reachable h c) \<and>
     (\<exists>new. topo (build_children ord h cs st) = topo st @ new)"
proof (induction ord h v st and ord h cs st rule: build_topo_build_children.induct)
  case (1 ord h v st)
  show ?case
  proof (cases "v \<in> visited st")
    case True
    with 1(6) have "v \<notin> pending st" by auto
    with True have vin: "v \<in> set (topo st)" by (simp add: pending_def)
    from 1(4) have "parents_first h (topo st)" by (simp add: dfs_inv_def)
    with vin have "reachable h v \<subseteq> set (topo st)"
      by (auto dest: parents_first_closed)
    with True 1(4) show ?thesis by auto
  next
    case False
    define st0 where "st0 = st\<lparr>visited := insert v (visited st)\<rparr>"
    define cs where "cs = children ord h v"
    define st1 where "st1 = build_children ord h cs st0"
    have res: "build_topo ord h v st = st1\<lparr>topo := topo st1 @ [v]\<rparr>"
      using False by (simp add: st1_def st0_def cs_def Let_def)
    have cs: "set cs = v_prev (h ! v)"
      unfolding cs_def using 1(2,3,5) by (rule children_set)
    have lt: "\<forall>c \<in> set cs. c < v"
      using cs 1(2,5) by (auto dest: well_formed_child_less)
    from 1(4) False have vnt: "v \<notin> set (topo st)" by (auto simp: dfs_inv_def)
    have inv0: "dfs_inv h st0" using 1(4) by (auto simp: dfs_inv_def st0_def)
    have pend0: "pending st0 = insert v (pending st)"
      using vnt by (auto simp: pending_def st0_def)
    have a: "\<forall>c \<in> set cs. c < length h" using lt 1(5) by auto
    have b: "\<forall>u \<in> pending st0. \<forall>c \<in> set cs. c < u"
      using lt 1(6) pend0 by fastforce
    have IH: "dfs_inv h st1 \<and> pending st1 = pending st0 \<and>
        set (topo st1) = set (topo st0) \<union> (\<Union>c \<in> set cs. reachable h c) \<and>
        (\<exists>new. topo st1 = topo st0 @ new)"
      unfolding st1_def
      using 1(1)[OF False 1(2,3), folded cs_def st0_def, OF inv0 a b] .
    have t0: "topo st0 = topo st" by (simp add: st0_def)
    from IH pend0 have vp: "v \<in> pending st1" by simp
    then have v1: "v \<in> visited st1" "v \<notin> set (topo st1)" by (auto simp: pending_def)
    have sub: "v_prev (h ! v) \<subseteq> set (topo st1)"
      using IH cs by (auto simp: reachable_self)
    have "parents_first h (topo st1)" using IH by (simp add: dfs_inv_def)
    then have "parents_first h (topo st1 @ [v])" using sub by (rule parents_first_snoc)
    moreover have "distinct (topo st1)" "set (topo st1) \<subseteq> visited st1"
      using IH unfolding dfs_inv_def by blast+
    ultimately have inv': "dfs_inv h (st1\<lparr>topo := topo st1 @ [v]\<rparr>)"
      using v1 unfolding dfs_inv_def by simp
    have "v \<notin> pending st" using False by (simp add: pending_def)
    then have pend': "pending (st1\<lparr>topo := topo st1 @ [v]\<rparr>) = pending st"
      using IH pend0 by (auto simp: pending_def)
    have set': "set (topo (st1\<lparr>topo := topo st1 @ [v]\<rparr>)) = set (topo st) \<union> reachable h v"
      using IH t0 cs reachable_unfold[OF 1(5)] by auto
    have pre': "\<exists>new. topo (st1\<lparr>topo := topo st1 @ [v]\<rparr>) = topo st @ new"
      using IH t0 by auto
    show ?thesis unfolding res using inv' pend' set' pre' by blast
  qed
next
  case (2 ord h st)
  then show ?case by simp
next
  case (3 ord h c cs st)
  define st1 where "st1 = build_topo ord h c st"
  have IH1: "dfs_inv h st1 \<and> pending st1 = pending st \<and>
      set (topo st1) = set (topo st) \<union> reachable h c \<and> (\<exists>new. topo st1 = topo st @ new)"
    unfolding st1_def using 3(1)[OF 3(3,4,5)] 3(6,7) by simp
  have IH2: "dfs_inv h (build_children ord h cs st1) \<and>
      pending (build_children ord h cs st1) = pending st1 \<and>
      set (topo (build_children ord h cs st1)) = set (topo st1) \<union> (\<Union>c \<in> set cs. reachable h c) \<and>
      (\<exists>new. topo (build_children ord h cs st1) = topo st1 @ new)"
    using 3(2)[OF 3(3,4), folded st1_def] IH1 3(6,7) by simp
  have "build_children ord h (c # cs) st = build_children ord h cs st1"
    by (simp add: st1_def)
  with IH1 IH2 show ?case by auto
qed


lemma topo_order_last: "\<exists>pre. topo_order ord h r = pre @ [r]"
  by (simp add: topo_order_def Let_def)

lemma topo_order_props:
  assumes "well_formed h" "iterates ord" "r < length h"
  shows "distinct (topo_order ord h r)"
    and "set (topo_order ord h r) = reachable h r"
    and "parents_first h (topo_order ord h r)"
proof -
  let ?st = "\<lparr>visited = {}, topo = []\<rparr>"
  have "dfs_inv h ?st" by (simp add: dfs_inv_def parents_first_Nil)
  moreover have "\<forall>u \<in> pending ?st. r < u" by (simp add: pending_def)
  ultimately have *: "dfs_inv h (build_topo ord h r ?st) \<and>
     pending (build_topo ord h r ?st) = pending ?st \<and>
     set (topo (build_topo ord h r ?st)) = set (topo ?st) \<union> reachable h r \<and>
     (\<exists>new. topo (build_topo ord h r ?st) = topo ?st @ new)"
    using dfs_step(1)[OF assms(1,2) _ assms(3), of ?st] by blast
  from * show "distinct (topo_order ord h r)" by (simp add: dfs_inv_def topo_order_def)
  from * show "set (topo_order ord h r) = reachable h r" by (simp add: topo_order_def)
  from * show "parents_first h (topo_order ord h r)" by (simp add: dfs_inv_def topo_order_def)
qed

lemma reachable_le:
  assumes "well_formed h" "r < length h" "u \<in> reachable h r"
  shows "u \<le> r"
proof -
  from assms(3) have "(r, u) \<in> (parent_rel h)\<^sup>*" by (simp add: reachable_def)
  then show ?thesis
  proof (induction rule: rtrancl_induct)
    case base
    show ?case by simp
  next
    case (step y z)
    from step(2) have "y < length h" "z \<in> v_prev (h ! y)" by (auto simp: parent_rel_def)
    with assms(1) have "z < y" by (auto dest: well_formed_child_less)
    with step(3) show ?case by simp
  qed
qed

subsection \<open>What a rule and the loop leave alone\<close>

lemma length_add_grad [simp]: "length (add_grad h v x) = length h"
  by (simp add: add_grad_def)

lemma nth_add_grad_fields [simp]:
  "data (add_grad h v x ! u) = data (h ! u)"
  "v_prev (add_grad h v x ! u) = v_prev (h ! u)"
  "v_backward (add_grad h v x ! u) = v_backward (h ! u)"
proof -
  have "add_grad h v x ! u = (h ! u)\<lparr>grad := grad (add_grad h v x ! u)\<rparr>"
  proof (cases "v < length h")
    case True
    then show ?thesis by (cases "u = v") (simp_all add: add_grad_def)
  next
    case False
    then show ?thesis by (simp add: add_grad_def list_update_beyond)
  qed
  then have *: "\<exists>g. add_grad h v x ! u = (h ! u)\<lparr>grad := g\<rparr>" ..
  from * show "data (add_grad h v x ! u) = data (h ! u)" by auto
  from * show "v_prev (add_grad h v x ! u) = v_prev (h ! u)" by auto
  from * show "v_backward (add_grad h v x ! u) = v_backward (h ! u)" by auto
qed

lemma grad_add_grad:
  "grad (add_grad h v x ! u) =
     (if u = v \<and> v < length h then py_add (grad (h ! u)) x else grad (h ! u))"
  by (cases "v < length h"; cases "u = v"; simp add: add_grad_def list_update_beyond)

lemma call_frame:
  assumes "call h f = Inr h'"
  shows "length h' = length h"
    and "data (h' ! u) = data (h ! u)"
    and "v_prev (h' ! u) = v_prev (h ! u)"
    and "v_backward (h' ! u) = v_backward (h ! u)"
    and "u \<notin> operands f \<Longrightarrow> grad (h' ! u) = grad (h ! u)"
proof -
  show "length h' = length h"
    using assms by (cases f) (auto simp: Let_def split: sum.splits)
  show "data (h' ! u) = data (h ! u)"
    using assms by (cases f) (auto simp: Let_def split: sum.splits)
  show "v_prev (h' ! u) = v_prev (h ! u)"
    using assms by (cases f) (auto simp: Let_def split: sum.splits)
  show "v_backward (h' ! u) = v_backward (h ! u)"
    using assms by (cases f) (auto simp: Let_def split: sum.splits)
  show "grad (h' ! u) = grad (h ! u)" if "u \<notin> operands f"
    using assms that by (cases f) (auto simp: Let_def grad_add_grad split: sum.splits)
qed

lemma length_seed [simp]: "length (seed h r) = length h"
  by (simp add: seed_def)

lemma nth_seed_fields [simp]:
  "data (seed h r ! u) = data (h ! u)"
  "v_prev (seed h r ! u) = v_prev (h ! u)"
  "v_backward (seed h r ! u) = v_backward (h ! u)"
proof -
  have "seed h r ! u = (h ! u)\<lparr>grad := grad (seed h r ! u)\<rparr>"
  proof (cases "r < length h")
    case True
    then show ?thesis by (cases "u = r") (simp_all add: seed_def)
  next
    case False
    then show ?thesis by (simp add: seed_def list_update_beyond)
  qed
  then have *: "\<exists>g. seed h r ! u = (h ! u)\<lparr>grad := g\<rparr>" ..
  from * show "data (seed h r ! u) = data (h ! u)" by auto
  from * show "v_prev (seed h r ! u) = v_prev (h ! u)" by auto
  from * show "v_backward (seed h r ! u) = v_backward (h ! u)" by auto
qed

lemma grad_seed:
  "grad (seed h r ! u) = (if u = r \<and> r < length h then Float 1 else grad (h ! u))"
  by (cases "r < length h"; cases "u = r"; simp add: seed_def list_update_beyond)

lemma backward_loop_frame:
  assumes "backward_loop h vs = (h', r)"
  shows "length h' = length h \<and> data (h' ! u) = data (h ! u) \<and>
     v_prev (h' ! u) = v_prev (h ! u) \<and> v_backward (h' ! u) = v_backward (h ! u) \<and>
     ((\<forall>v \<in> set vs. u \<notin> operands (v_backward (h ! v))) \<longrightarrow> grad (h' ! u) = grad (h ! u))"
  using assms
proof (induction vs arbitrary: h)
  case Nil
  then show ?case by simp
next
  case (Cons v vs)
  show ?case
  proof (cases "call h (v_backward (h ! v))")
    case (Inl e)
    with Cons.prems show ?thesis by simp
  next
    case (Inr h1)
    with Cons.prems have "backward_loop h1 vs = (h', r)" by simp
    note IH = Cons.IH[OF this]
    have bw: "v_backward (h1 ! w) = v_backward (h ! w)" for w
      using Inr by (rule call_frame(4))
    have "grad (h' ! u) = grad (h ! u)"
      if *: "\<forall>w \<in> set (v # vs). u \<notin> operands (v_backward (h ! w))"
    proof -
      from * have "grad (h1 ! u) = grad (h ! u)"
        using call_frame(5)[OF Inr, of u] by simp
      moreover from * have "grad (h' ! u) = grad (h1 ! u)"
        using IH by (simp add: bw)
      ultimately show ?thesis by simp
    qed
    moreover have "length h' = length h" "data (h' ! u) = data (h ! u)"
      "v_prev (h' ! u) = v_prev (h ! u)" "v_backward (h' ! u) = v_backward (h ! u)"
      using IH call_frame(1-4)[OF Inr] by simp_all
    ultimately show ?thesis by blast
  qed
qed

lemma backward_loop_append:
  "backward_loop h (xs @ ys) =
     (case backward_loop h xs of
        (h1, None) \<Rightarrow> backward_loop h1 ys
      | (h1, Some e) \<Rightarrow> (h1, Some e))"
proof (induction xs arbitrary: h)
  case Nil
  show ?case by simp
next
  case (Cons v xs)
  show ?case
    by (cases "call h (v_backward (h ! v))") (simp_all add: Cons.IH)
qed

lemma backward_loop_Noop:
  "\<forall>v \<in> set vs. v_backward (h ! v) = Noop \<Longrightarrow> backward_loop h vs = (h, None)"
  by (induction vs) simp_all


subsection \<open>What the constructors append\<close>

lemma node_fields [simp]:
  "data (node d f) = d" "grad (node d f) = Float 0" "v_backward (node d f) = f"
  "v_prev (node d f) = operands f"
  by (simp_all add: node_def)

lemma add_Node: "add h a (Node b) =
    (h @ [node (py_add (data (h ! a)) (data (h ! b))) (AddBackward a b (length h))], length h)"
  by (simp add: add_def Value_init_def set_backward_def node_def)

lemma mul_Node: "mul h a (Node b) =
    (h @ [node (py_mul (data (h ! a)) (data (h ! b))) (MulBackward a b (length h))], length h)"
  by (simp add: mul_def Value_init_def set_backward_def node_def)

lemma mul_Plain: "a < length h \<Longrightarrow> mul h a (Plain c) =
    (h @ [node c Noop, node (py_mul (data (h ! a)) c) (MulBackward a (length h) (Suc (length h)))],
     Suc (length h))"
  by (simp add: mul_def Value_init_def set_backward_def node_def nth_append list_update_append)

lemma pow_Plain: "py_pow (data (h ! a)) k = Inr d \<Longrightarrow> pow h a (Plain (Float k)) =
    (h @ [node d (PowBackward a k (length h))], Inr (length h))"
  by (simp add: Value_init_def set_backward_def node_def)

lemma relu_eq: "data (h ! a) = Float x \<Longrightarrow> relu h a =
    (h @ [node (Float (if x < 0 then 0 else x)) (ReluBackward a (length h))], Inr (length h))"
  by (simp add: relu_def Value_init_def set_backward_def node_def)

lemma relu_complex: "data (h ! a) = Cplx z \<Longrightarrow> relu h a = (h, Inl TypeError)"
  by (simp add: relu_def)

lemma new_leaves_eq: "new_leaves h ds = h @ map (\<lambda>d. node (Float d) Noop) ds"
  by (induction ds arbitrary: h) (simp_all add: new_leaves_def Value_init_def node_def)

subsection \<open>Well-formed heaps\<close>


lemma well_formed_snoc:
  "well_formed h \<Longrightarrow> held_by f (length h) \<Longrightarrow> \<forall>c \<in> operands f. c < length h \<Longrightarrow>
     well_formed (h @ [node d f])"
  unfolding well_formed_def
proof (intro allI impI)
  fix v
  assume wf: "\<forall>v<length h. v_prev (h ! v) = operands (v_backward (h ! v)) \<and>
      (\<forall>c\<in>v_prev (h ! v). c < v) \<and> held_by (v_backward (h ! v)) v"
    and f: "held_by f (length h)" "\<forall>c \<in> operands f. c < length h"
    and v: "v < length (h @ [node d f])"
  show "v_prev ((h @ [node d f]) ! v) = operands (v_backward ((h @ [node d f]) ! v)) \<and>
      (\<forall>c\<in>v_prev ((h @ [node d f]) ! v). c < v) \<and> held_by (v_backward ((h @ [node d f]) ! v)) v"
  proof (cases "v < length h")
    case True
    with wf show ?thesis by (simp add: nth_append)
  next
    case False
    with v have "v = length h" by simp
    with f show ?thesis by simp
  qed
qed

lemma well_formed_same_graph:
  "well_formed h \<Longrightarrow> same_graph h h' \<Longrightarrow> well_formed h'"
  by (simp add: well_formed_def same_graph_def)

subsection \<open>Reachability\<close>

lemma reachable_acyclic:
  assumes "well_formed h" "a < length h" "v \<in> reachable h a"
  shows "a \<notin> v_prev (h ! v)"
proof
  assume "a \<in> v_prev (h ! v)"
  from assms have "v \<le> a" by (rule reachable_le)
  with assms(2) have "v < length h" by simp
  with assms(1) \<open>a \<in> v_prev (h ! v)\<close> have "a < v" by (auto dest: well_formed_child_less)
  with \<open>v \<le> a\<close> show False by simp
qed

lemma reachable_step:
  "u \<in> reachable h r \<Longrightarrow> u < length h \<Longrightarrow> c \<in> v_prev (h ! u) \<Longrightarrow> c \<in> reachable h r"
  by (auto simp: reachable_def parent_rel_def intro: rtrancl_into_rtrancl)

lemma reachable_append:
  assumes "well_formed (h @ ext)" "a < length h"
  shows "reachable (h @ ext) a = reachable h a"
proof (intro set_eqI iffI)
  fix u assume "u \<in> reachable (h @ ext) a"
  then have "(a, u) \<in> (parent_rel (h @ ext))\<^sup>*" by (simp add: reachable_def)
  then have "u \<in> reachable h a \<and> u \<le> a"
  proof (induction rule: rtrancl_induct)
    case base
    show ?case by (simp add: reachable_self)
  next
    case (step y z)
    then have y: "y < length h" using assms(2) by simp
    from step(2) have "z \<in> v_prev ((h @ ext) ! y)" by (simp add: parent_rel_def)
    with y have z: "z \<in> v_prev (h ! y)" by (simp add: nth_append)
    from assms(1) y z have "z < y"
      using well_formed_child_less[of "h @ ext" y z] by (simp add: nth_append)
    with step z y show ?case by (auto intro: reachable_step)
  qed
  then show "u \<in> reachable h a" ..
next
  fix u assume "u \<in> reachable h a"
  then have "(a, u) \<in> (parent_rel h)\<^sup>*" by (simp add: reachable_def)
  moreover have "parent_rel h \<subseteq> parent_rel (h @ ext)"
    by (auto simp: parent_rel_def nth_append)
  ultimately have "(a, u) \<in> (parent_rel (h @ ext))\<^sup>*"
    using rtrancl_mono by blast
  then show "u \<in> reachable (h @ ext) a" by (simp add: reachable_def)
qed

subsection \<open>The root goes first\<close>

lemma backward_unfold:
  assumes "well_formed h" "iterates ord" "z < length h"
  shows "\<exists>pre. set pre = reachable h z - {z} \<and> distinct pre \<and>
     topo_order ord h z = pre @ [z] \<and>
     backward ord h z =
       (case call (seed h z) (v_backward (h ! z)) of
          Inl e \<Rightarrow> (seed h z, Some e)
        | Inr h1 \<Rightarrow> backward_loop h1 (rev pre))"
proof -
  obtain pre where pre: "topo_order ord h z = pre @ [z]"
    using topo_order_last by blast
  from topo_order_props[OF assms] pre
  have "distinct (pre @ [z])" "set (pre @ [z]) = reachable h z" by simp_all
  then have "set pre = reachable h z - {z}" "distinct pre" by auto
  moreover have "backward ord h z =
       (case call (seed h z) (v_backward (h ! z)) of
          Inl e \<Rightarrow> (seed h z, Some e)
        | Inr h1 \<Rightarrow> backward_loop h1 (rev pre))"
    by (simp add: backward_def pre)
  ultimately show ?thesis using pre by blast
qed

lemma backward_grad_after_root:
  assumes wf: "well_formed h" and ord: "iterates ord" and z: "z < length h"
    and call: "call (seed h z) (v_backward (h ! z)) = Inr h1"
    and u: "\<forall>v \<in> reachable h z - {z}. u \<notin> v_prev (h ! v)"
  shows "grad (fst (backward ord h z) ! u) = grad (h1 ! u)"
proof -
  from backward_unfold[OF wf ord z] call obtain pre where
    pre: "set pre = reachable h z - {z}" and bw: "backward ord h z = backward_loop h1 (rev pre)"
    by auto
  obtain h' r where loop: "backward_loop h1 (rev pre) = (h', r)" by (cases "backward_loop h1 (rev pre)")
  have "\<forall>v \<in> set (rev pre). u \<notin> operands (v_backward (h1 ! v))"
  proof
    fix v assume "v \<in> set (rev pre)"
    with pre have v: "v \<in> reachable h z - {z}" by simp
    then have "v \<le> z" using reachable_le[OF wf z] by simp
    with z have vl: "v < length h" by simp
    have "v_backward (h1 ! v) = v_backward (h ! v)"
      using call_frame(4)[OF call, of v] by simp
    moreover from wf vl have "v_prev (h ! v) = operands (v_backward (h ! v))"
      by (simp add: well_formed_def)
    moreover from u v have "u \<notin> v_prev (h ! v)" by blast
    ultimately show "u \<notin> operands (v_backward (h1 ! v))" by simp
  qed
  with backward_loop_frame[OF loop, of u] have "grad (h' ! u) = grad (h1 ! u)" by simp
  with bw loop show ?thesis by simp
qed

subsection \<open>A root made last\<close>

lemma fresh_root_frame:
  assumes wf': "well_formed (h @ [n])" and u: "u < length h"
    and S: "\<forall>c \<in> v_prev n. c = u \<or> u \<notin> reachable h c"
  shows "\<forall>v \<in> reachable (h @ [n]) (length h) - {length h}. u \<notin> v_prev ((h @ [n]) ! v)"
proof
  fix v assume v: "v \<in> reachable (h @ [n]) (length h) - {length h}"
  have lt: "\<forall>c \<in> v_prev n. c < length h"
    using wf' well_formed_child_less[of "h @ [n]" "length h"] by simp
  from v have "v \<in> (\<Union>c \<in> v_prev n. reachable (h @ [n]) c)"
    using reachable_unfold[of "length h" "h @ [n]"] by simp
  then obtain c where c: "c \<in> v_prev n" "v \<in> reachable (h @ [n]) c" by blast
  with lt have cl: "c < length h" by blast
  with c wf' have vr: "v \<in> reachable h c" by (simp add: reachable_append)
  have wf: "well_formed h"
    using wf' by (auto simp: well_formed_def nth_append split: if_splits)
  from vr have "v \<le> c" using reachable_le[OF wf cl] by simp
  with cl have vl: "v < length h" by simp
  show "u \<notin> v_prev ((h @ [n]) ! v)"
  proof
    assume "u \<in> v_prev ((h @ [n]) ! v)"
    with vl have uv: "u \<in> v_prev (h ! v)" by (simp add: nth_append)
    with vr vl have "u \<in> reachable h c" by (rule reachable_step)
    with S c(1) have "c = u" by blast
    with vr uv reachable_acyclic[OF wf u, of v] show False by simp
  qed
qed

lemma backward_fresh_root:
  assumes wf: "well_formed h" and ord: "iterates ord"
    and f: "held_by f (length h)" "\<forall>c \<in> operands f. c < length h"
    and u: "u < length h" "\<forall>c \<in> operands f. c = u \<or> u \<notin> reachable h c"
    and call: "call (seed (h @ [node d f]) (length h)) f = Inr h1"
  shows "grad (fst (backward ord (h @ [node d f]) (length h)) ! u) = grad (h1 ! u)"
proof -
  let ?H = "h @ [node d f]"
  have wf': "well_formed ?H" using wf f by (rule well_formed_snoc)
  have "\<forall>v \<in> reachable ?H (length h) - {length h}. u \<notin> v_prev (?H ! v)"
    using wf' u(1) by (rule fresh_root_frame) (use u(2) in simp)
  moreover have "call (seed ?H (length h)) (v_backward (?H ! length h)) = Inr h1"
    using call by simp
  ultimately show ?thesis
    using backward_grad_after_root[OF wf' ord, of "length h" h1 u] by simp
qed

lemma iterates_by_address: "iterates by_address"
  by (simp add: iterates_def by_address_def)

lemma reachable_leaf: "leaf h x \<Longrightarrow> reachable h x = {x}"
  using reachable_unfold[of x h] by (simp add: leaf_def)

lemma leaf_append: "leaf h x \<Longrightarrow> leaf (h @ ext) x"
  by (simp add: leaf_def nth_append)

lemma backward_leaf_operands:
  assumes wf: "well_formed h" and ord: "iterates ord" and z: "z < length h"
    and leaves: "\<forall>c \<in> v_prev (h ! z). leaf h c"
    and call: "call (seed h z) (v_backward (h ! z)) = Inr h1"
  shows "backward ord h z = (h1, None)"
proof -
  from backward_unfold[OF wf ord z] call obtain pre where
    pre: "set pre = reachable h z - {z}" and bw: "backward ord h z = backward_loop h1 (rev pre)"
    by auto
  have "\<forall>v \<in> set (rev pre). v_backward (h1 ! v) = Noop"
  proof
    fix v assume "v \<in> set (rev pre)"
    with pre have "v \<in> (\<Union>c \<in> v_prev (h ! z). reachable h c)"
      using reachable_unfold[OF z] by auto
    with leaves have "leaf h v" by (auto simp: reachable_leaf)
    then show "v_backward (h1 ! v) = Noop"
      using call_frame(4)[OF call, of v] by (simp add: leaf_def)
  qed
  then have "backward_loop h1 (rev pre) = (h1, None)" by (rule backward_loop_Noop)
  with bw show ?thesis by simp
qed

lemma reachable_child_closed:
  assumes "well_formed h" "r < length h" "v \<in> reachable h r" "u \<in> v_prev (h ! v)"
  shows "u \<in> reachable h r"
proof -
  from assms(1-3) have "v \<le> r" by (rule reachable_le)
  with assms(2) have "v < length h" by simp
  with assms(3,4) show ?thesis by (auto intro: reachable_step)
qed

subsection \<open>The calls the loop makes\<close>




subsection \<open>Rules add, the seed assigns\<close>

lemma add_grad_commute:
  "add_grad (add_grad h u c) a x = add_grad (add_grad h a x) u c"
proof (rule nth_equalityI)
  show "length (add_grad (add_grad h u c) a x) = length (add_grad (add_grad h a x) u c)"
    by simp
next
  fix i assume "i < length (add_grad (add_grad h u c) a x)"
  then have i: "i < length h" by simp
  show "add_grad (add_grad h u c) a x ! i = add_grad (add_grad h a x) u c ! i"
    using i by (cases "i = u"; cases "i = a") (auto simp: add_grad_def py_add_right_commute)
qed

lemma call_add_grad:
  assumes "held_by f v" "u \<noteq> v"
  shows "call (add_grad h u c) f =
     (case call h f of Inl e \<Rightarrow> Inl e | Inr h' \<Rightarrow> Inr (add_grad h' u c))"
proof (cases f)
  case Noop
  then show ?thesis by simp
next
  case (AddBackward a b out)
  with assms have "u \<noteq> out" by simp
  then show ?thesis
    unfolding AddBackward by (simp add: Let_def grad_add_grad add_grad_commute)
next
  case (MulBackward a b out)
  with assms have "u \<noteq> out" by simp
  then show ?thesis
    unfolding MulBackward by (simp add: Let_def grad_add_grad add_grad_commute)
next
  case (PowBackward a k out)
  with assms have "u \<noteq> out" by simp
  then show ?thesis
    unfolding PowBackward by (simp add: grad_add_grad add_grad_commute split: sum.splits)
next
  case (ReluBackward a out)
  with assms have "u \<noteq> out" by simp
  then show ?thesis
    unfolding ReluBackward by (simp add: grad_add_grad add_grad_commute split: sum.splits)
qed

lemma backward_root_grad:
  assumes wf: "well_formed h" and ord: "iterates ord" and r: "r < length h"
  shows "grad (fst (backward ord h r) ! r) = Float 1"
proof (cases "call (seed h r) (v_backward (h ! r))")
  case (Inl e)
  with backward_unfold[OF wf ord r] have "backward ord h r = (seed h r, Some e)" by auto
  with r show ?thesis by (simp add: grad_seed)
next
  case (Inr h1)
  have nr: "r \<notin> v_prev (h ! r)" using well_formed_child_less[OF wf r, of r] by auto
  have "grad (fst (backward ord h r) ! r) = grad (h1 ! r)"
    using wf ord r Inr
  proof (rule backward_grad_after_root)
    show "\<forall>v \<in> reachable h r - {r}. r \<notin> v_prev (h ! v)"
      using reachable_acyclic[OF wf r] by blast
  qed
  also have "\<dots> = grad (seed h r ! r)"
  proof (rule call_frame(5)[OF Inr])
    from wf r have "v_prev (h ! r) = operands (v_backward (h ! r))"
      by (simp add: well_formed_def)
    with nr show "r \<notin> operands (v_backward (h ! r))" by simp
  qed
  finally show ?thesis using r by (simp add: grad_seed)
qed

lemma same_graph_call: "call h f = Inr h' \<Longrightarrow> same_graph h h'"
  using call_frame(1-4)[of h f h'] by (simp add: same_graph_def)

lemma same_graph_seed: "same_graph h (seed h r)"
  by (simp add: same_graph_def)

lemma same_graph_trans: "same_graph h h1 \<Longrightarrow> same_graph h1 h2 \<Longrightarrow> same_graph h h2"
  by (simp add: same_graph_def)

lemma leaf_same_graph: "same_graph h h' \<Longrightarrow> leaf h x \<Longrightarrow> leaf h' x"
  by (simp add: same_graph_def leaf_def)

text \<open>Backward from a product of two different leaves, whatever the gradients were.\<close>

lemma backward_mul_leaves:
  assumes wf: "well_formed h" and ord: "iterates ord" and z: "z < length h"
    and f: "v_backward (h ! z) = MulBackward x y z"
    and leaves: "leaf h x" "leaf h y" and xy: "x \<noteq> y"
  shows "\<exists>hf. backward ord h z = (hf, None) \<and> same_graph h hf \<and>
     grad (hf ! x) = py_add (grad (h ! x)) (data (h ! y)) \<and>
     grad (hf ! y) = py_add (grad (h ! y)) (data (h ! x)) \<and> grad (hf ! z) = Float 1"
proof -
  from wf z f have pv: "v_prev (h ! z) = {x, y}" by (simp add: well_formed_def)
  with wf z have lt: "x < z" "y < z" by (auto dest: well_formed_child_less)
  obtain hf where call: "call (seed h z) (v_backward (h ! z)) = Inr hf"
    unfolding f by (simp add: Let_def)
  have bw: "backward ord h z = (hf, None)"
    using wf ord z _ call by (rule backward_leaf_operands) (use pv leaves in simp)
  have sg: "same_graph h hf"
    using same_graph_seed same_graph_call[OF call] by (rule same_graph_trans)
  have g: "grad (hf ! x) = py_add (grad (h ! x)) (data (h ! y))"
    "grad (hf ! y) = py_add (grad (h ! y)) (data (h ! x))" "grad (hf ! z) = Float 1"
    using call lt z xy unfolding f
    by (auto simp: Let_def grad_add_grad grad_seed)
  from bw sg g show ?thesis by blast
qed

subsection \<open>One inner node among leaves\<close>

lemma backward_loop_one_inner:
  assumes "n \<in> set vs" "distinct vs"
    and "\<forall>v \<in> set vs - {n}. v_backward (h ! v) = Noop"
    and call: "call h (v_backward (h ! n)) = Inr h2"
  shows "backward_loop h vs = (h2, None)"
proof -
  from assms(1) obtain xs ys where vs: "vs = xs @ n # ys" by (auto simp: in_set_conv_decomp)
  with assms(2) have nn: "n \<notin> set xs" "n \<notin> set ys" by auto
  have "backward_loop h xs = (h, None)"
    using assms(3) nn vs by (intro backward_loop_Noop) auto
  moreover have "backward_loop h2 ys = (h2, None)"
  proof (rule backward_loop_Noop)
    show "\<forall>v \<in> set ys. v_backward (h2 ! v) = Noop"
      using assms(3) nn vs call_frame(4)[OF call] by auto
  qed
  ultimately show ?thesis using call by (simp add: vs backward_loop_append)
qed

lemma backward_one_inner:
  assumes wf: "well_formed h" and ord: "iterates ord" and z: "z < length h"
    and call: "call (seed h z) (v_backward (h ! z)) = Inr h1"
    and n: "n \<in> reachable h z" "n \<noteq> z"
    and leaves: "\<forall>v \<in> reachable h z - {z, n}. leaf h v"
    and call2: "call h1 (v_backward (h ! n)) = Inr h2"
  shows "backward ord h z = (h2, None)"
proof -
  from backward_unfold[OF wf ord z] call obtain pre where
    pre: "set pre = reachable h z - {z}" "distinct pre"
    and bw: "backward ord h z = backward_loop h1 (rev pre)"
    by auto
  have same: "v_backward (h1 ! v) = v_backward (h ! v)" for v
    using call_frame(4)[OF call, of v] by simp
  have "backward_loop h1 (rev pre) = (h2, None)"
  proof (rule backward_loop_one_inner)
    show "n \<in> set (rev pre)" using pre n by simp
    show "distinct (rev pre)" using pre by simp
    show "\<forall>v \<in> set (rev pre) - {n}. v_backward (h1 ! v) = Noop"
      using pre leaves by (auto simp: same leaf_def)
    show "call h1 (v_backward (h1 ! n)) = Inr h2" using call2 by (simp add: same)
  qed
  with bw show ?thesis by simp
qed

subsection \<open>Every operation keeps the heap well-formed\<close>

text \<open>
  The heaps the theorems below speak of are the well-formed ones.  The empty
  heap is well-formed, and each constructor, each operation and the backward
  pass itself give a well-formed heap from a well-formed one: no program over
  this interface reaches a heap of another kind.
\<close>

lemma well_formed_Value_init: "well_formed h \<Longrightarrow> well_formed (fst (Value_init h d []))"
  using well_formed_snoc[of h Noop d] by (simp add: Value_init_def node_def)

lemma well_formed_new_leaves: "well_formed h \<Longrightarrow> well_formed (new_leaves h ds)"
proof (induction ds arbitrary: h)
  case Nil
  then show ?case by (simp add: new_leaves_def)
next
  case (Cons d ds)
  from Cons.prems have "well_formed (fst (Value_init h (Float d) []))"
    by (rule well_formed_Value_init)
  then have "well_formed (new_leaves (fst (Value_init h (Float d) [])) ds)" by (rule Cons.IH)
  then show ?case by (simp add: new_leaves_def)
qed

lemma well_formed_wrap:
  assumes "well_formed h" "case other of Node b \<Rightarrow> b < length h | Plain c \<Rightarrow> True"
  shows "well_formed (fst (wrap h other)) \<and> snd (wrap h other) < length (fst (wrap h other)) \<and>
     length h \<le> length (fst (wrap h other)) \<and>
     (\<forall>v < length h. fst (wrap h other) ! v = h ! v)"
proof (cases other)
  case (Plain c)
  with well_formed_Value_init[OF assms(1), of c] show ?thesis
    by (simp add: Value_init_def nth_append)
next
  case (Node b)
  with assms show ?thesis by simp
qed

lemma well_formed_add:
  assumes "well_formed h" "a < length h" "case other of Node b \<Rightarrow> b < length h | Plain c \<Rightarrow> True"
  shows "well_formed (fst (add h a other))"
proof -
  obtain h1 b where w: "wrap h other = (h1, b)" by (cases "wrap h other")
  with well_formed_wrap[OF assms(1,3)] assms(2)
  have h1: "well_formed h1" "b < length h1" "a < length h1" by auto
  have "add h a other =
      (h1 @ [node (py_add (data (h1 ! a)) (data (h1 ! b))) (AddBackward a b (length h1))],
       length h1)"
    by (simp add: add_def w Value_init_def set_backward_def node_def)
  moreover have "well_formed
      (h1 @ [node (py_add (data (h1 ! a)) (data (h1 ! b))) (AddBackward a b (length h1))])"
    using h1 by (intro well_formed_snoc) simp_all
  ultimately show ?thesis by simp
qed

lemma well_formed_mul:
  assumes "well_formed h" "a < length h" "case other of Node b \<Rightarrow> b < length h | Plain c \<Rightarrow> True"
  shows "well_formed (fst (mul h a other)) \<and> snd (mul h a other) < length (fst (mul h a other)) \<and>
    length h \<le> length (fst (mul h a other))"
proof -
  obtain h1 b where w: "wrap h other = (h1, b)" by (cases "wrap h other")
  with well_formed_wrap[OF assms(1,3)] assms(2)
  have h1: "well_formed h1" "b < length h1" "a < length h1" "length h \<le> length h1" by auto
  have "mul h a other =
      (h1 @ [node (py_mul (data (h1 ! a)) (data (h1 ! b))) (MulBackward a b (length h1))],
       length h1)"
    by (simp add: mul_def w Value_init_def set_backward_def node_def)
  moreover have "well_formed
      (h1 @ [node (py_mul (data (h1 ! a)) (data (h1 ! b))) (MulBackward a b (length h1))])"
    using h1 by (intro well_formed_snoc) simp_all
  ultimately show ?thesis using h1(4) by simp
qed

lemma well_formed_pow:
  assumes "well_formed h" "a < length h"
  shows "well_formed (fst (pow h a other)) \<and> length h \<le> length (fst (pow h a other)) \<and>
    (\<forall>p. snd (pow h a other) = Inr p \<longrightarrow> p < length (fst (pow h a other)))"
proof (cases other)
  case (Node b)
  with assms show ?thesis by simp
next
  case (Plain c)
  show ?thesis
  proof (cases c)
    case (Cplx z)
    with assms Plain show ?thesis by simp
  next
    case (Float k)
    show ?thesis
    proof (cases "py_pow (data (h ! a)) k")
      case (Inl e)
      with assms Plain Float show ?thesis by simp
    next
      case (Inr d)
      then have "pow h a (Plain (Float k)) =
          (h @ [node d (PowBackward a k (length h))], Inr (length h))"
        by (rule pow_Plain)
      moreover have "well_formed (h @ [node d (PowBackward a k (length h))])"
        using assms by (intro well_formed_snoc) simp_all
      ultimately show ?thesis using Plain Float by simp
    qed
  qed
qed

lemma well_formed_relu:
  assumes "well_formed h" "a < length h"
  shows "well_formed (fst (relu h a))"
proof (cases "data (h ! a)")
  case (Float x)
  then show ?thesis using assms by (simp add: relu_eq well_formed_snoc)
next
  case (Cplx z)
  then show ?thesis using assms by (simp add: relu_complex)
qed

lemma well_formed_neg:
  assumes "well_formed h" "a < length h"
  shows "well_formed (fst (neg h a))"
  unfolding neg_def using well_formed_mul[OF assms, of "Plain (Float (- 1))"] by simp

lemma well_formed_sub:
  assumes "well_formed h" "a < length h" "case other of Node b \<Rightarrow> b < length h | Plain c \<Rightarrow> True"
  shows "well_formed (fst (sub h a other))"
proof (cases other)
  case (Plain c)
  with well_formed_add[OF assms(1,2), of "Plain (py_neg c)"] show ?thesis by simp
next
  case (Node b)
  with assms(3) have b: "b < length h" by simp
  obtain h1 nb where n: "neg h b = (h1, nb)" by (cases "neg h b")
  with well_formed_mul[OF assms(1) b, of "Plain (Float (- 1))"] assms(2)
  have "well_formed h1" "nb < length h1" "a < length h1" by (auto simp: neg_def)
  then have "well_formed (fst (add h1 a (Node nb)))" by (intro well_formed_add) simp_all
  with Node n show ?thesis by simp
qed

lemma well_formed_truediv:
  assumes "well_formed h" "a < length h" "case other of Node b \<Rightarrow> b < length h | Plain c \<Rightarrow> True"
  shows "well_formed (fst (truediv h a other))"
proof (cases other)
  case (Plain c)
  show ?thesis
  proof (cases "py_pow c (- 1)")
    case (Inl e)
    with Plain assms(1) show ?thesis by simp
  next
    case (Inr r)
    with Plain well_formed_mul[OF assms(1,2), of "Plain r"] show ?thesis
      by (cases "mul h a (Plain r)") simp
  qed
next
  case (Node b)
  with assms(3) have b: "b < length h" by simp
  obtain h1 res where p: "pow h b (Plain (Float (- 1))) = (h1, res)"
    by (cases "pow h b (Plain (Float (- 1)))")
  with well_formed_pow[OF assms(1) b, of "Plain (Float (- 1))"] assms(2)
  have h1: "well_formed h1" "a < length h1" "\<forall>q. res = Inr q \<longrightarrow> q < length h1"
    by (auto simp del: pow.simps)
  show ?thesis
  proof (cases res)
    case (Inl e)
    with p h1 Node show ?thesis by (simp del: pow.simps)
  next
    case (Inr q)
    with h1 have "q < length h1" by simp
    with h1 have "well_formed (fst (mul h1 a (Node q)))"
      using well_formed_mul[of h1 a "Node q"] by simp
    with p Inr Node show ?thesis by (cases "mul h1 a (Node q)") (simp del: pow.simps)
  qed
qed

lemma well_formed_backward:
  assumes "well_formed h"
  shows "well_formed (fst (backward ord h r))"
proof -
  obtain hf e where loop: "backward_loop (seed h r) (rev (topo_order ord h r)) = (hf, e)"
    by (cases "backward_loop (seed h r) (rev (topo_order ord h r))")
  have "same_graph h hf"
    using backward_loop_frame[OF loop] by (simp add: same_graph_def)
  with assms have "well_formed hf" by (rule well_formed_same_graph)
  with loop show ?thesis by (simp add: backward_def)
qed

subsection \<open>Python's power at the integers and at zero\<close>

lemma is_integral_of_int [simp]: "is_integral (of_int n)"
  by (simp add: is_integral_def)

lemma is_integral_numeral [simp]:
  "is_integral (numeral n)" "is_integral (- numeral n)" "is_integral 0" "is_integral 1"
  "is_integral (- 1)"
  by (simp_all add: is_integral_def)

lemma is_integral_diff_one: "is_integral (k - 1) \<longleftrightarrow> is_integral k"
  by (auto simp: is_integral_def)

lemma floor_minus_one_real: "\<lfloor>- 1 :: real\<rfloor> = - 1"
  by (simp add: floor_eq_iff)

lemma not_too_large: "\<bar>r\<bar> \<le> 2 ^ 1023 \<Longrightarrow> \<not> too_large r"
proof -
  have "(2 :: real) ^ 1023 < 2 ^ 1024 - 2 ^ 970" by simp
  then show "\<bar>r\<bar> \<le> 2 ^ 1023 \<Longrightarrow> \<not> too_large r" by (simp add: too_large_def)
qed

lemma not_too_large_small [simp]:
  "\<not> too_large 0" "\<not> too_large 1" "\<not> too_large (- 1)" "\<not> too_large (- 1 - 1)"
  by (rule not_too_large, simp)+

lemma too_large_mono: "too_large r \<Longrightarrow> \<bar>r\<bar> \<le> \<bar>s\<bar> \<Longrightarrow> too_large s"
  by (simp add: too_large_def)

lemma atan2_negative_real: "x < 0 \<Longrightarrow> atan2 0 x = pi"
  by (simp add: atan2_def)

lemma c_pow_negative_real:
  assumes "x < 0" "\<not> is_integral k"
  shows "c_pow (of_real x) k = of_real (\<bar>x\<bar> powr k) * cis (pi * k)"
  using assms by (simp add: c_pow_def atan2_negative_real mult.commute)


lemma py_pow_power_value:
  assumes "\<not> too_large k" "\<not> (x = 0 \<and> k < 0)" "in_range (power_value x k)"
  shows "py_pow (Float x) k = Inr (power_value x k)"
proof (cases "is_integral k")
  case True
  with assms show ?thesis by (simp add: power_value_def)
next
  case False
  show ?thesis
  proof (cases "x < 0")
    case True
    with assms \<open>\<not> is_integral k\<close> show ?thesis
      by (simp add: power_value_def c_pow_negative_real)
  next
    case False
    with assms \<open>\<not> is_integral k\<close> show ?thesis by (simp add: power_value_def)
  qed
qed




lemma power_value_pos: "0 < x \<Longrightarrow> power_value x k = Float (x powr k)"
proof (cases "is_integral k")
  case True
  assume "0 < x"
  then have "x powr of_int \<lfloor>k\<rfloor> = x powi \<lfloor>k\<rfloor>"
    by (intro powr_real_of_int') simp_all
  moreover from True have "k = of_int \<lfloor>k\<rfloor>" by (simp add: is_integral_def)
  ultimately show ?thesis using True by (simp add: power_value_def)
next
  case False
  assume "0 < x"
  with False show ?thesis by (simp add: power_value_def)
qed

lemma power_value_nat: "power_value x (of_nat n) = Float (x ^ n)"
  by (simp add: power_value_def is_integral_def)

lemma power_value_neg_one: "power_value y (- 1) = Float (1 / y)"
  by (simp add: power_value_def floor_minus_one_real power_int_minus inverse_eq_divide)

lemma power_value_neg_two: "power_value y (- 1 - 1) = Float (1 / y\<^sup>2)"
proof -
  have "(- 1 - 1 :: real) = - 2" by simp
  moreover have "power_value y (- 2) = Float (1 / y\<^sup>2)"
    by (simp add: power_value_def power_int_minus inverse_eq_divide)
  ultimately show ?thesis by simp
qed

subsection \<open>Subtraction and division of two leaves\<close>

lemma sub_leaves:
  assumes wf: "well_formed h" and ord: "iterates ord"
    and lv: "leaf h a" "leaf h b" and ab: "a \<noteq> b"
    and g: "grad (h ! a) = Float 0" "grad (h ! b) = Float 0"
  shows "\<exists>h' z hf. sub h a (Node b) = (h', z) \<and>
     data (h' ! z) = py_add (data (h ! a)) (py_mul (data (h ! b)) (Float (- 1))) \<and>
     backward ord h' z = (hf, None) \<and> grad (hf ! a) = Float 1 \<and> grad (hf ! b) = Float (- 1)"
proof -
  define L where "L = length h"
  define c where "c = node (Float (- 1)) Noop"
  define nb where
    "nb = node (py_mul (data (h ! b)) (Float (- 1))) (MulBackward b L (Suc L))"
  define out where
    "out = node (py_add (data (h ! a)) (py_mul (data (h ! b)) (Float (- 1))))
       (AddBackward a (Suc L) (Suc (Suc L)))"
  define H0 where "H0 = h @ [c]"
  define H1 where "H1 = H0 @ [nb]"
  define H where "H = H1 @ [out]"
  from lv have a: "a < L" and b: "b < L" by (simp_all add: leaf_def L_def)
  have len: "length H0 = Suc L" "length H1 = Suc (Suc L)" "length H = Suc (Suc (Suc L))"
    by (simp_all add: H0_def H1_def H_def L_def)
  have nth: "H ! a = h ! a" "H ! b = h ! b" "H ! L = c" "H ! Suc L = nb" "H ! Suc (Suc L) = out"
    using a b by (simp_all add: H0_def H1_def H_def L_def nth_append)
  have s: "sub h a (Node b) = (H, Suc (Suc L))"
    using a b
    by (simp add: neg_def mul_Plain add_Node H_def H1_def H0_def c_def nb_def out_def L_def
        nth_append)
  have wf0: "well_formed H0" unfolding H0_def c_def using wf by (rule well_formed_snoc) simp_all
  have wf1: "well_formed H1" unfolding H1_def nb_def using wf0
    by (rule well_formed_snoc) (use b len in simp_all)
  have wfH: "well_formed H" unfolding H_def out_def using wf1
    by (rule well_formed_snoc) (use a len in simp_all)
  have lf: "leaf H a" "leaf H b" "leaf H L"
    using lv a b nth len by (simp_all add: leaf_def c_def)
  let ?z = "Suc (Suc L)"
  have z: "?z < length H" using len by simp
  have r1: "reachable H (Suc L) = {Suc L, b, L}"
    using reachable_unfold[of "Suc L" H] len lf nth by (auto simp: nb_def reachable_leaf)
  have rz: "reachable H ?z = {?z, a, Suc L, b, L}"
    using reachable_unfold[OF z] lf nth r1 by (auto simp: out_def reachable_leaf)
  define h1 where "h1 = add_grad (add_grad (seed H ?z) a (grad (seed H ?z ! ?z))) (Suc L)
      (grad (add_grad (seed H ?z) a (grad (seed H ?z ! ?z)) ! ?z))"
  have call1: "call (seed H ?z) (v_backward (H ! ?z)) = Inr h1"
    by (simp add: nth out_def h1_def Let_def)
  obtain h2 where call2: "call h1 (v_backward (H ! Suc L)) = Inr h2"
    by (simp add: nth nb_def Let_def)
  have bw: "backward ord H ?z = (h2, None)"
    using wfH ord z call1
  proof (rule backward_one_inner)
    show "Suc L \<in> reachable H ?z" by (simp add: rz)
    show "Suc L \<noteq> ?z" by simp
    show "\<forall>v \<in> reachable H ?z - {?z, Suc L}. leaf H v" using lf by (auto simp: rz)
    show "call h1 (v_backward (H ! Suc L)) = Inr h2" by (rule call2)
  qed
  have g1: "grad (h1 ! a) = Float 1" "grad (h1 ! b) = Float 0" "grad (h1 ! Suc L) = Float 1"
    "data (h1 ! L) = Float (- 1)"
    using a b ab g len nth
    by (simp_all add: h1_def grad_add_grad grad_seed nb_def c_def)
  have g2: "grad (h2 ! a) = Float 1" "grad (h2 ! b) = Float (- 1)"
    using call2 a b ab g1 len
    by (auto simp: nth nb_def Let_def grad_add_grad h1_def)
  have dz: "data (H ! ?z) = py_add (data (h ! a)) (py_mul (data (h ! b)) (Float (- 1)))"
    by (simp add: nth out_def)
  from s dz bw g2 show ?thesis by blast
qed

lemma py_sub_value:
  "to_complex (py_add v (py_mul w (Float (- 1)))) = to_complex v - to_complex w"
  "py_add (Float x) (py_mul (Float y) (Float (- 1))) = Float (x - y)"
  by (cases v; cases w; simp)+

lemma truediv_leaves:
  assumes wf: "well_formed h" and ord: "iterates ord"
    and lv: "leaf h a" "leaf h b" and ab: "a \<noteq> b"
    and g: "grad (h ! a) = Float 0" "grad (h ! b) = Float 0"
    and d: "data (h ! a) = Float x" "data (h ! b) = Float y"
    and nz: "y \<noteq> 0" and fits: "\<not> too_large (1 / y)" "\<not> too_large (1 / y\<^sup>2)"
  shows "\<exists>h' z hf. truediv h a (Node b) = (h', Inr z) \<and>
     data (h' ! z) = Float (x * (1 / y)) \<and>
     backward ord h' z = (hf, None) \<and> grad (hf ! a) = Float (1 / y) \<and>
     grad (hf ! b) = Float (x * (- 1 * (1 / y\<^sup>2)))"
proof -
  define L where "L = length h"
  define p where "p = node (Float (1 / y)) (PowBackward b (- 1) L)"
  define out where "out = node (Float (x * (1 / y))) (MulBackward a L (Suc L))"
  define H1 where "H1 = h @ [p]"
  define H where "H = H1 @ [out]"
  from lv have a: "a < L" and b: "b < L" by (simp_all add: leaf_def L_def)
  have len: "length H1 = Suc L" "length H = Suc (Suc L)"
    by (simp_all add: H1_def H_def L_def)
  have nth: "H ! a = h ! a" "H ! b = h ! b" "H ! L = p" "H ! Suc L = out"
    using a b by (simp_all add: H1_def H_def L_def nth_append)
  have p1: "py_pow (Float y) (- 1) = Inr (Float (1 / y))"
  proof -
    have 1: "\<not> too_large (- 1)" by (rule not_too_large_small)
    have 2: "\<not> (y = 0 \<and> (- 1 :: real) < 0)" using nz by simp
    have 3: "in_range (power_value y (- 1))"
      unfolding power_value_neg_one using fits by simp
    from py_pow_power_value[OF 1 2 3] show ?thesis unfolding power_value_neg_one .
  qed
  have p2: "py_pow (Float y) (- 1 - 1) = Inr (Float (1 / y\<^sup>2))"
  proof -
    have 1: "\<not> too_large (- 1 - 1)" by (rule not_too_large_small)
    have 2: "\<not> (y = 0 \<and> (- 1 - 1 :: real) < 0)" using nz by simp
    have 3: "in_range (power_value y (- 1 - 1))"
      unfolding power_value_neg_two using fits by simp
    from py_pow_power_value[OF 1 2 3] show ?thesis unfolding power_value_neg_two .
  qed
  have pw: "pow h b (Plain (Float (- 1))) = (H1, Inr L)"
    unfolding H1_def p_def L_def using p1 d by (intro pow_Plain) simp
  have s: "truediv h a (Node b) = (H, Inr (Suc L))"
    using a b d
    by (simp add: pw mul_Node H_def out_def len del: pow.simps)
      (simp add: H1_def p_def nth_append L_def)
  have wf1: "well_formed H1" unfolding H1_def p_def using wf
    by (rule well_formed_snoc) (use b in \<open>simp_all add: L_def\<close>)
  have wfH: "well_formed H" unfolding H_def out_def using wf1
    by (rule well_formed_snoc) (use a len in simp_all)
  have lf: "leaf H a" "leaf H b"
    using lv a b nth len by (simp_all add: leaf_def)
  let ?z = "Suc L"
  have z: "?z < length H" using len by simp
  have r1: "reachable H L = {L, b}"
    using reachable_unfold[of L H] len lf nth by (auto simp: p_def reachable_leaf)
  have rz: "reachable H ?z = {?z, a, L, b}"
    using reachable_unfold[OF z] lf nth r1 by (auto simp: out_def reachable_leaf)
  define h1 where "h1 =
    add_grad (add_grad (seed H ?z) a (py_mul (grad (seed H ?z ! ?z)) (data (seed H ?z ! L)))) L
      (py_mul (grad (add_grad (seed H ?z) a
                 (py_mul (grad (seed H ?z ! ?z)) (data (seed H ?z ! L))) ! ?z))
         (data (add_grad (seed H ?z) a
                 (py_mul (grad (seed H ?z ! ?z)) (data (seed H ?z ! L))) ! a)))"
  have call1: "call (seed H ?z) (v_backward (H ! ?z)) = Inr h1"
    by (simp add: nth out_def h1_def Let_def)
  have d1: "data (h1 ! b) = Float y" by (simp add: h1_def nth d)
  define h2 where
    "h2 = add_grad h1 b (py_mul (grad (h1 ! L)) (py_mul (Float (- 1)) (Float (1 / y\<^sup>2))))"
  have call2: "call h1 (v_backward (H ! L)) = Inr h2"
    using p2 by (simp add: nth p_def d1 h2_def)
  have bw: "backward ord H ?z = (h2, None)"
    using wfH ord z call1
  proof (rule backward_one_inner)
    show "L \<in> reachable H ?z" by (simp add: rz)
    show "L \<noteq> ?z" by simp
    show "\<forall>v \<in> reachable H ?z - {?z, L}. leaf H v" using lf by (auto simp: rz)
    show "call h1 (v_backward (H ! L)) = Inr h2" by (rule call2)
  qed
  have g1: "grad (h1 ! a) = Float (1 / y)" "grad (h1 ! b) = Float 0" "grad (h1 ! L) = Float x"
    using a b ab g d len nth
    by (simp_all add: h1_def grad_add_grad grad_seed p_def)
  have g2: "grad (h2 ! a) = Float (1 / y)" "grad (h2 ! b) = Float (x * (- 1 * (1 / y\<^sup>2)))"
    using a b ab g1 len by (simp_all add: h2_def grad_add_grad h1_def)
  have dz: "data (H ! ?z) = Float (x * (1 / y))" by (simp add: nth out_def)
  from s dz bw g2 show ?thesis by blast
qed

subsection \<open>Python's power at some numbers\<close>


lemma not_too_large_16: "\<bar>r\<bar> \<le> 16 \<Longrightarrow> \<not> too_large r"
proof -
  have "(2 :: real) ^ 4 \<le> 2 ^ 1023" by (rule power_increasing) simp_all
  then have "(16 :: real) \<le> 2 ^ 1023" by (simp only: power_numeral_even power_numeral_odd) simp
  then show "\<bar>r\<bar> \<le> 16 \<Longrightarrow> \<not> too_large r" by (intro not_too_large) (rule order_trans)
qed












subsection \<open>What the power operation returns\<close>









subsection \<open>A pass that raises\<close>



subsection \<open>A rule adds the same, whatever the gradient was\<close>

lemma call_raises_add_grad: "call (add_grad h u c) f = Inl e \<longleftrightarrow> call h f = Inl e"
  by (cases f) (auto simp: Let_def split: sum.splits)

lemma call_add_grad_any:
  assumes "held_by f v" "v \<notin> operands f" "u < length h"
  shows "case call (add_grad h u c) f of
           Inl e \<Rightarrow> call h f = Inl e
         | Inr h2 \<Rightarrow> (\<exists>h1. call h f = Inr h1 \<and> grad (h2 ! u) = py_add (grad (h1 ! u)) c)"
proof (cases "call (add_grad h u c) f")
  case (Inl e)
  then have "call h f = Inl e" by (simp add: call_raises_add_grad)
  with Inl show ?thesis by simp
next
  case (Inr h2)
  obtain h1 where h1: "call h f = Inr h1"
  proof (cases "call h f")
    case (Inl e)
    then have "call (add_grad h u c) f = Inl e" by (simp add: call_raises_add_grad)
    with Inr show ?thesis by simp
  next
    case (Inr h1)
    then show ?thesis by (rule that)
  qed
  have "grad (h2 ! u) = py_add (grad (h1 ! u)) c"
  proof (cases "u = v")
    case False
    with call_add_grad[OF assms(1), of u h c] h1 Inr have "h2 = add_grad h1 u c" by simp
    moreover have "length h1 = length h" using h1 by (rule call_frame(1))
    ultimately show ?thesis using assms(3) by (simp add: grad_add_grad)
  next
    case True
    with assms(2) have nu: "u \<notin> operands f" by simp
    have "grad (h2 ! u) = grad (add_grad h u c ! u)" using Inr nu by (rule call_frame(5))
    moreover have "grad (h1 ! u) = grad (h ! u)" using h1 nu by (rule call_frame(5))
    ultimately show ?thesis using assms(3) by (simp add: grad_add_grad)
  qed
  with Inr h1 show ?thesis by simp
qed

lemma backward_twice_mul_leaves:
  assumes wf: "well_formed h" and ord: "iterates ord"
    and lvs: "leaf h x" "leaf h y" and xy: "x \<noteq> y"
  shows "\<exists>h' z h1 h2. mul h x (Node y) = (h', z) \<and>
     backward ord h' z = (h1, None) \<and> backward ord h1 z = (h2, None) \<and>
     grad (h1 ! x) = py_add (grad (h ! x)) (data (h ! y)) \<and>
     grad (h2 ! x) = py_add (py_add (grad (h ! x)) (data (h ! y))) (data (h ! y)) \<and>
     data (h2 ! y) = data (h ! y) \<and> grad (h1 ! z) = Float 1 \<and> grad (h2 ! z) = Float 1"
proof -
  let ?z = "length h"
  let ?f = "MulBackward x y ?z"
  let ?H = "h @ [node (py_mul (data (h ! x)) (data (h ! y))) ?f]"
  from lvs have x: "x < length h" and y: "y < length h" by (simp_all add: leaf_def)
  have m: "mul h x (Node y) = (?H, ?z)" by (rule mul_Node)
  have wf': "well_formed ?H" using wf x y by (intro well_formed_snoc) simp_all
  have lv: "leaf ?H x" "leaf ?H y" using lvs by (simp_all add: leaf_append)
  have z: "?z < length ?H" by simp
  have f: "v_backward (?H ! ?z) = ?f" by simp
  from backward_mul_leaves[OF wf' ord z f lv xy] obtain h1 where
    h1: "backward ord ?H ?z = (h1, None)" "same_graph ?H h1"
      "grad (h1 ! x) = py_add (grad (?H ! x)) (data (?H ! y))" "grad (h1 ! ?z) = Float 1"
    by blast
  have wf1: "well_formed h1" using wf' h1(2) by (rule well_formed_same_graph)
  have z1: "?z < length h1" using h1(2) by (simp add: same_graph_def)
  have f1: "v_backward (h1 ! ?z) = ?f" using h1(2) by (simp add: same_graph_def)
  have lv1: "leaf h1 x" "leaf h1 y" using h1(2) lv by (auto intro: leaf_same_graph)
  from backward_mul_leaves[OF wf1 ord z1 f1 lv1 xy] obtain h2 where
    h2: "backward ord h1 ?z = (h2, None)" "same_graph h1 h2"
      "grad (h2 ! x) = py_add (grad (h1 ! x)) (data (h1 ! y))" "grad (h2 ! ?z) = Float 1"
    by blast
  have d1: "data (h1 ! y) = data (h ! y)" "data (h2 ! y) = data (h ! y)"
    using h1(2) h2(2) y by (simp_all add: same_graph_def nth_append)
  have g1: "grad (h1 ! x) = py_add (grad (h ! x)) (data (h ! y))"
    using h1(3) x y by (simp add: nth_append)
  with h2(3) d1 have g2:
    "grad (h2 ! x) = py_add (py_add (grad (h ! x)) (data (h ! y))) (data (h ! y))"
    by simp
  from m h1(1,4) h2(1,4) g1 g2 d1 show ?thesis by blast
qed

section \<open>Division by a node whose value is zero\<close>

text \<open>
  Claim C1 says that dividing a node by a node whose value is exactly zero does
  not fail at the call and returns an output node carrying an infinity or a NaN.
  \<^verbatim>\<open>__truediv__\<close> evaluates \<^verbatim>\<open>other ** -1\<close> first, and \<^verbatim>\<open>__pow__\<close> evaluates
  \<^verbatim>\<open>other.data ** -1\<close> before it makes a node.  Python raises
  \<^verbatim>\<open>ZeroDivisionError\<close> there, for \<^verbatim>\<open>0\<close> and for \<^verbatim>\<open>0.0\<close>.  With the leaves
  \<^verbatim>\<open>a = Value(1)\<close> and \<^verbatim>\<open>b = Value(0)\<close>, \<^verbatim>\<open>a / b\<close> raises and leaves the heap
  as it was.
\<close>

theorem truediv_zero_counterexample:
  "truediv (new_leaves [] [1, 0]) 0 (Node 1) = (new_leaves [] [1, 0], Inl ZeroDivisionError)"
  by (simp add: new_leaves_def Value_init_def)

text \<open>
  Claim C1, amended: dividing a node \<open>a\<close> by a node \<open>b\<close> whose value is exactly
  zero is not guarded by the engine and fails at the call, with Python's
  \<^verbatim>\<open>ZeroDivisionError\<close> from \<^verbatim>\<open>b.data ** -1\<close>; no output node is made and no
  node is changed.
\<close>

theorem truediv_zero_raises:
  "data (h ! b) = Float 0 \<Longrightarrow> truediv h a (Node b) = (h, Inl ZeroDivisionError)"
  by simp

theorem truediv_zero_raises_witness:
  "data (new_leaves [] [3, 0] ! 1) = Float 0 \<and>
   truediv (new_leaves [] [3, 0]) 0 (Node 1) = (new_leaves [] [3, 0], Inl ZeroDivisionError)"
  using truediv_zero_raises [of "new_leaves [] [3, 0]" 1 0]
  by (simp add: new_leaves_def Value_init_def)

section \<open>The exponent of the power operation\<close>




section \<open>The same node as both operands of an addition\<close>

text \<open>
  Claim C2: for every leaf node \<open>x\<close> with gradient initially 0, building
  \<open>y = x + x\<close> and calling backward from \<open>y\<close> yields \<open>x.gradient = 2\<close>, although
  the parents of \<open>y\<close> are a set and hold \<open>x\<close> once.  The call returns without
  an exception, whatever the iteration order of sets.
\<close>

theorem add_self_backward:
  assumes "well_formed h" "iterates ord" "leaf h x" "grad (h ! x) = Float 0"
  shows "\<exists>h' y hf. add h x (Node x) = (h', y) \<and> v_prev (h' ! y) = {x} \<and>
     backward ord h' y = (hf, None) \<and> grad (hf ! x) = Float 2"
proof -
  let ?y = "length h"
  let ?f = "AddBackward x x ?y"
  let ?H = "h @ [node (py_add (data (h ! x)) (data (h ! x))) ?f]"
  from assms(3) have x: "x < length h" by (simp add: leaf_def)
  have a: "add h x (Node x) = (?H, ?y)" by (rule add_Node)
  have wf': "well_formed ?H" using assms(1) x by (intro well_formed_snoc) simp_all
  obtain h1 where call: "call (seed ?H ?y) ?f = Inr h1" by (simp add: Let_def)
  have g: "grad (h1 ! x) = Float 2"
    using call x assms(4) by (auto simp: Let_def grad_add_grad grad_seed nth_append)
  have "backward ord ?H ?y = (h1, None)"
    using wf' assms(2)
  proof (rule backward_leaf_operands)
    show "?y < length ?H" by simp
    show "\<forall>c \<in> v_prev (?H ! ?y). leaf ?H c" using assms(3) by (simp add: leaf_append)
    show "call (seed ?H ?y) (v_backward (?H ! ?y)) = Inr h1" using call by simp
  qed
  with a g show ?thesis by simp
qed

text \<open>The claim at \<^verbatim>\<open>a = Value(3); b = a + a\<close>.\<close>

theorem add_self_backward_witness:
  "well_formed (new_leaves [] [3]) \<and> iterates by_address \<and> leaf (new_leaves [] [3]) 0 \<and>
   grad (new_leaves [] [3] ! 0) = Float 0 \<and>
   (\<exists>h' y hf. add (new_leaves [] [3]) 0 (Node 0) = (h', y) \<and> v_prev (h' ! y) = {0} \<and>
      backward by_address h' y = (hf, None) \<and> grad (hf ! 0) = Float 2)"
proof -
  have 1: "well_formed (new_leaves [] [3])" by code_simp
  have 3: "leaf (new_leaves [] [3]) 0" by code_simp
  have 4: "grad (new_leaves [] [3] ! 0) = Float 0" by code_simp
  from add_self_backward [OF 1 iterates_by_address 3 4] 1 3 4 iterates_by_address
  show ?thesis by blast
qed

section \<open>The gradient of a product\<close>

text \<open>
  Claim C4 says that for all nodes \<open>a\<close> and \<open>b\<close> with gradients initially 0,
  backward from \<open>a * b\<close> yields \<open>a.gradient = b.value\<close> and
  \<open>b.gradient = a.value\<close>.  The two operands may be one node:
  with \<^verbatim>\<open>x = Value(3)\<close>, backward from \<^verbatim>\<open>x * x\<close> leaves \<^verbatim>\<open>x.grad == 6\<close>, not
  the value 3 of the other operand; both statements of the rule add into the
  same object.  And one operand may be built from the other: with
  \<^verbatim>\<open>a = Value(2); b = a + 1\<close>, backward from \<^verbatim>\<open>a * b\<close> leaves \<^verbatim>\<open>a.grad == 5\<close>,
  the value 3 of \<^verbatim>\<open>b\<close> plus what flows back through \<^verbatim>\<open>b\<close>.
\<close>

theorem mul_shared_operand_counterexample:
  "grad (fst (backward by_address (fst (mul (new_leaves [] [3]) 0 (Node 0)))
      (snd (mul (new_leaves [] [3]) 0 (Node 0)))) ! 0) = Float 6 \<and>
   data (fst (mul (new_leaves [] [3]) 0 (Node 0)) ! 0) = Float 3 \<and>
   snd (add (new_leaves [] [2]) 0 (Plain (Float 1))) = 2 \<and>
   data (fst (add (new_leaves [] [2]) 0 (Plain (Float 1))) ! 2) = Float 3 \<and>
   grad (fst (backward by_address
      (fst (mul (fst (add (new_leaves [] [2]) 0 (Plain (Float 1)))) 0 (Node 2)))
      (snd (mul (fst (add (new_leaves [] [2]) 0 (Plain (Float 1)))) 0 (Node 2)))) ! 0) = Float 5"
  by code_simp

text \<open>
  Claim C4, amended: for all nodes \<open>a\<close> and \<open>b\<close> with gradients initially 0,
  neither of which is reachable from the other through parents (so they are two
  nodes; two different leaves are an instance), building \<open>a * b\<close> gives a node
  with value \<open>a.value * b.value\<close>, and backward from it yields
  \<open>a.gradient = b.value\<close> and \<open>b.gradient = a.value\<close>.  The heap read after
  backward is the one the call leaves, also when a rule further down raises.
\<close>

theorem mul_backward:
  assumes "well_formed h" "iterates ord" "a < length h" "b < length h"
    and "a \<notin> reachable h b" "b \<notin> reachable h a"
    and "grad (h ! a) = Float 0" "grad (h ! b) = Float 0"
  shows "\<exists>h' z. mul h a (Node b) = (h', z) \<and>
     data (h' ! z) = py_mul (data (h ! a)) (data (h ! b)) \<and>
     data (h' ! a) = data (h ! a) \<and> data (h' ! b) = data (h ! b) \<and>
     grad (fst (backward ord h' z) ! a) = data (h ! b) \<and>
     grad (fst (backward ord h' z) ! b) = data (h ! a)"
proof -
  let ?z = "length h"
  let ?f = "MulBackward a b ?z"
  let ?d = "py_mul (data (h ! a)) (data (h ! b))"
  let ?H = "h @ [node ?d ?f]"
  have ab: "a \<noteq> b" using assms(5) by (auto simp: reachable_self)
  have m: "mul h a (Node b) = (?H, ?z)" by (rule mul_Node)
  obtain h1 where call: "call (seed ?H ?z) ?f = Inr h1" by (simp add: Let_def)
  have g1: "grad (h1 ! a) = data (h ! b)" "grad (h1 ! b) = data (h ! a)"
    using call assms(3,4,7,8) ab
    by (auto simp: Let_def grad_add_grad grad_seed nth_append)
  have f: "held_by ?f ?z" "\<forall>c \<in> operands ?f. c < ?z" using assms(3,4) by simp_all
  have "grad (fst (backward ord ?H ?z) ! a) = grad (h1 ! a)"
    using assms(1,2) f assms(3) _ call
    by (rule backward_fresh_root) (use assms(5) in simp)
  moreover have "grad (fst (backward ord ?H ?z) ! b) = grad (h1 ! b)"
    using assms(1,2) f assms(4) _ call
    by (rule backward_fresh_root) (use assms(6) in simp)
  ultimately show ?thesis using m g1 assms(3,4) by (simp add: nth_append)
qed

text \<open>The amended claim at \<^verbatim>\<open>x = Value(2); y = Value(3); z = x * y\<close>.\<close>

theorem mul_backward_witness:
  "well_formed (new_leaves [] [2, 3]) \<and> iterates by_address \<and>
   0 < length (new_leaves [] [2, 3]) \<and> 1 < length (new_leaves [] [2, 3]) \<and>
   0 \<notin> reachable (new_leaves [] [2, 3]) 1 \<and> 1 \<notin> reachable (new_leaves [] [2, 3]) 0 \<and>
   grad (new_leaves [] [2, 3] ! 0) = Float 0 \<and> grad (new_leaves [] [2, 3] ! 1) = Float 0 \<and>
   (\<exists>h' z. mul (new_leaves [] [2, 3]) 0 (Node 1) = (h', z) \<and> data (h' ! z) = Float 6 \<and>
      grad (fst (backward by_address h' z) ! 0) = Float 3 \<and>
      grad (fst (backward by_address h' z) ! 1) = Float 2)"
proof -
  let ?h = "new_leaves [] [2, 3]"
  have 1: "well_formed ?h" by code_simp
  have 3: "0 < length ?h" and 4: "1 < length ?h" by code_simp+
  have "leaf ?h 0" "leaf ?h 1" by code_simp+
  then have 5: "0 \<notin> reachable ?h 1" and 6: "1 \<notin> reachable ?h 0"
    by (simp_all add: reachable_leaf)
  have 7: "grad (?h ! 0) = Float 0" and 8: "grad (?h ! 1) = Float 0" by code_simp+
  have d: "data (?h ! 0) = Float 2" "data (?h ! 1) = Float 3" by code_simp+
  from mul_backward [OF 1 iterates_by_address 3 4 5 6 7 8]
  have "\<exists>h' z. mul ?h 0 (Node 1) = (h', z) \<and> data (h' ! z) = Float 6 \<and>
      grad (fst (backward by_address h' z) ! 0) = Float 3 \<and>
      grad (fst (backward by_address h' z) ! 1) = Float 2"
    unfolding d by auto
  with 1 3 4 5 6 7 8 iterates_by_address show ?thesis by blast
qed

section \<open>The rectified-linear operation\<close>




section \<open>The gradient of a power\<close>




section \<open>What the backward pass changes\<close>

text \<open>
  Claim C10: calling backward from any root changes gradients only.  Every node
  of the heap, reachable from the root or not, has the same value, the same
  parents and the same rule before and after, no node is added or removed, and
  the gradient of a node that is not reachable from the root is unchanged.  The
  heap after the call is the one the call leaves, whether it returns or raises.
\<close>

theorem backward_frame:
  assumes "well_formed h" "iterates ord" "r0 < length h"
  shows "length (fst (backward ord h r0)) = length h \<and>
     (\<forall>u < length h.
        data (fst (backward ord h r0) ! u) = data (h ! u) \<and>
        v_prev (fst (backward ord h r0) ! u) = v_prev (h ! u) \<and>
        v_backward (fst (backward ord h r0) ! u) = v_backward (h ! u) \<and>
        (u \<notin> reachable h r0 \<longrightarrow> grad (fst (backward ord h r0) ! u) = grad (h ! u)))"
proof -
  let ?tp = "topo_order ord h r0"
  obtain hf r where loop: "backward_loop (seed h r0) (rev ?tp) = (hf, r)"
    by (cases "backward_loop (seed h r0) (rev ?tp)")
  then have bw: "fst (backward ord h r0) = hf" by (simp add: backward_def)
  have tp: "set ?tp = reachable h r0" using assms by (rule topo_order_props(2))
  have "grad (hf ! u) = grad (h ! u)" if u: "u \<notin> reachable h r0" for u
  proof -
    have "\<forall>v \<in> set (rev ?tp). u \<notin> operands (v_backward (seed h r0 ! v))"
    proof
      fix v assume "v \<in> set (rev ?tp)"
      with tp have v: "v \<in> reachable h r0" by simp
      then have "v \<le> r0" using reachable_le[OF assms(1,3)] by simp
      with assms(3) have "v < length h" by simp
      with assms(1) have "v_prev (h ! v) = operands (v_backward (h ! v))"
        by (simp add: well_formed_def)
      moreover have "u \<notin> v_prev (h ! v)"
        using reachable_child_closed[OF assms(1,3) v] u by blast
      ultimately show "u \<notin> operands (v_backward (seed h r0 ! v))" by simp
    qed
    with backward_loop_frame[OF loop, of u] have "grad (hf ! u) = grad (seed h r0 ! u)"
      by simp
    moreover from u have "u \<noteq> r0" by (auto simp: reachable_self)
    ultimately show ?thesis by (simp add: grad_seed)
  qed
  moreover have "length hf = length h" "data (hf ! u) = data (h ! u)"
    "v_prev (hf ! u) = v_prev (h ! u)" "v_backward (hf ! u) = v_backward (h ! u)" for u
    using backward_loop_frame[OF loop, of u] by simp_all
  ultimately show ?thesis unfolding bw by simp
qed

text \<open>
  The claim at \<^verbatim>\<open>x = Value(2); y = Value(3); w = Value(7); z = x * y\<close>, for the
  node \<^verbatim>\<open>w\<close>, which \<^verbatim>\<open>z\<close> does not reach.
\<close>

theorem backward_frame_witness:
  "well_formed (fst (mul (new_leaves [] [2, 3, 7]) 0 (Node 1))) \<and> iterates by_address \<and>
   3 < length (fst (mul (new_leaves [] [2, 3, 7]) 0 (Node 1))) \<and>
   2 < length (fst (mul (new_leaves [] [2, 3, 7]) 0 (Node 1))) \<and>
   2 \<notin> reachable (fst (mul (new_leaves [] [2, 3, 7]) 0 (Node 1))) 3 \<and>
   data (fst (backward by_address (fst (mul (new_leaves [] [2, 3, 7]) 0 (Node 1))) 3) ! 2)
     = Float 7 \<and>
   grad (fst (backward by_address (fst (mul (new_leaves [] [2, 3, 7]) 0 (Node 1))) 3) ! 2)
     = Float 0"
proof -
  let ?h = "fst (mul (new_leaves [] [2, 3, 7]) 0 (Node 1))"
  have 1: "well_formed ?h" by code_simp
  have 3: "3 < length ?h" and u: "2 < length ?h" by code_simp+
  have tp: "topo_order by_address ?h 3 = [0, 1, 3]" by code_simp
  have r: "reachable ?h 3 = set (topo_order by_address ?h 3)"
    using topo_order_props(2)[OF 1 iterates_by_address 3] by simp
  have nr: "2 \<notin> reachable ?h 3" unfolding r tp by simp
  have d: "data (?h ! 2) = Float 7" "grad (?h ! 2) = Float 0" by code_simp+
  from backward_frame [OF 1 iterates_by_address 3] u nr d
  have "data (fst (backward by_address ?h 3) ! 2) = Float 7 \<and>
        grad (fst (backward by_address ?h 3) ! 2) = Float 0"
    by (simp del: mul_def)
  with 1 3 u nr iterates_by_address show ?thesis by blast
qed

section \<open>The order of the backward pass\<close>




section \<open>Gradients accumulate\<close>

text \<open>
  Claim C9.  A rule changes gradients by addition only.  For a rule held by the
  node \<open>v\<close> and a node \<open>u\<close> other than \<open>v\<close>, adding a constant to the gradient of
  \<open>u\<close> before the rule runs or after it gives the same heap.  For every node
  \<open>u\<close>, \<open>v\<close> included: had the gradient of \<open>u\<close> been larger by \<open>c\<close> before the
  rule ran, it is larger by \<open>c\<close> after, and the rule raises in the one case
  exactly when it raises in the other.  The gradient of a node that is not an
  operand of the rule, so that of \<open>v\<close> itself, is the same before and after.  In
  a well-formed heap every node's rule is held by that node and does not have
  it as an operand.  The seed assignment overwrites: the root's gradient is 1
  after it, and is 1 after every call of backward, whatever it was.
  Consequently, for two different leaves \<open>x\<close> and \<open>y\<close> and \<open>z = x * y\<close>, the first
  call of backward from \<open>z\<close> adds \<open>y.value\<close> to \<open>x.gradient\<close> and a second call
  without a reset adds it again, both calls returning without an exception; so
  for leaves \<^verbatim>\<open>x = Value(a); y = Value(b)\<close> as the constructor makes them, two
  calls leave \<open>x.gradient = 2 * y.value\<close>, and the gradient of \<open>z\<close> is 1 after
  each.
\<close>

theorem gradient_accumulates:
  "(held_by f v \<and> u \<noteq> v \<longrightarrow>
      call (add_grad h u c) f =
        (case call h f of Inl e \<Rightarrow> Inl e | Inr h' \<Rightarrow> Inr (add_grad h' u c))) \<and>
   (held_by f v \<and> v \<notin> operands f \<and> u < length h \<longrightarrow>
      (case call (add_grad h u c) f of
         Inl e \<Rightarrow> call h f = Inl e
       | Inr h2 \<Rightarrow> (\<exists>h1. call h f = Inr h1 \<and> grad (h2 ! u) = py_add (grad (h1 ! u)) c))) \<and>
   (call h f = Inr h' \<and> u \<notin> operands f \<longrightarrow> grad (h' ! u) = grad (h ! u)) \<and>
   (well_formed h \<and> r < length h \<longrightarrow>
      held_by (v_backward (h ! r)) r \<and> r \<notin> operands (v_backward (h ! r))) \<and>
   (r < length h \<longrightarrow> grad (seed h r ! r) = Float 1) \<and>
   (well_formed h \<and> iterates ord \<and> r < length h \<longrightarrow>
      grad (fst (backward ord h r) ! r) = Float 1) \<and>
   (well_formed h \<and> iterates ord \<and> leaf h x \<and> leaf h y \<and> x \<noteq> y \<longrightarrow>
      (\<exists>h' z h1 h2. mul h x (Node y) = (h', z) \<and>
         backward ord h' z = (h1, None) \<and> backward ord h1 z = (h2, None) \<and>
         grad (h1 ! x) = py_add (grad (h ! x)) (data (h ! y)) \<and>
         grad (h2 ! x) = py_add (py_add (grad (h ! x)) (data (h ! y))) (data (h ! y)) \<and>
         data (h2 ! y) = data (h ! y) \<and> grad (h1 ! z) = Float 1 \<and> grad (h2 ! z) = Float 1)) \<and>
   (well_formed h \<and> iterates ord \<longrightarrow>
      (\<exists>h' z h1 h2.
         mul (new_leaves h [a, b]) (length h) (Node (Suc (length h))) = (h', z) \<and>
         backward ord h' z = (h1, None) \<and> backward ord h1 z = (h2, None) \<and>
         grad (h1 ! length h) = Float b \<and> grad (h2 ! length h) = Float (2 * b) \<and>
         data (h2 ! Suc (length h)) = Float b \<and>
         grad (h1 ! z) = Float 1 \<and> grad (h2 ! z) = Float 1))"
proof (intro conjI impI)
  assume "held_by f v \<and> u \<noteq> v"
  then show "call (add_grad h u c) f =
      (case call h f of Inl e \<Rightarrow> Inl e | Inr h' \<Rightarrow> Inr (add_grad h' u c))"
    using call_add_grad by blast
next
  assume "held_by f v \<and> v \<notin> operands f \<and> u < length h"
  then show "case call (add_grad h u c) f of
         Inl e \<Rightarrow> call h f = Inl e
       | Inr h2 \<Rightarrow> (\<exists>h1. call h f = Inr h1 \<and> grad (h2 ! u) = py_add (grad (h1 ! u)) c)"
    using call_add_grad_any by blast
next
  assume "call h f = Inr h' \<and> u \<notin> operands f"
  then show "grad (h' ! u) = grad (h ! u)" using call_frame(5) by blast
next
  assume a: "well_formed h \<and> r < length h"
  then show "held_by (v_backward (h ! r)) r" by (simp add: well_formed_def)
  from a have "v_prev (h ! r) = operands (v_backward (h ! r))" "\<forall>c \<in> v_prev (h ! r). c < r"
    by (simp_all add: well_formed_def)
  then show "r \<notin> operands (v_backward (h ! r))" by auto
next
  assume "r < length h"
  then show "grad (seed h r ! r) = Float 1" by (simp add: grad_seed)
next
  assume "well_formed h \<and> iterates ord \<and> r < length h"
  then show "grad (fst (backward ord h r) ! r) = Float 1" using backward_root_grad by blast
next
  assume "well_formed h \<and> iterates ord \<and> leaf h x \<and> leaf h y \<and> x \<noteq> y"
  then show "\<exists>h' z h1 h2. mul h x (Node y) = (h', z) \<and>
         backward ord h' z = (h1, None) \<and> backward ord h1 z = (h2, None) \<and>
         grad (h1 ! x) = py_add (grad (h ! x)) (data (h ! y)) \<and>
         grad (h2 ! x) = py_add (py_add (grad (h ! x)) (data (h ! y))) (data (h ! y)) \<and>
         data (h2 ! y) = data (h ! y) \<and> grad (h1 ! z) = Float 1 \<and> grad (h2 ! z) = Float 1"
    using backward_twice_mul_leaves by blast
next
  assume a: "well_formed h \<and> iterates ord"
  let ?L = "new_leaves h [a, b]"
  let ?x = "length h"
  let ?y = "Suc (length h)"
  have L: "?L = h @ [node (Float a) Noop, node (Float b) Noop]" by (simp add: new_leaves_eq)
  have wf: "well_formed ?L" using a by (intro well_formed_new_leaves) simp
  have lf: "leaf ?L ?x" "leaf ?L ?y" unfolding L by (simp_all add: leaf_def nth_append)
  have v: "grad (?L ! ?x) = Float 0" "data (?L ! ?y) = Float b"
    unfolding L by (simp_all add: nth_append)
  from a have ord: "iterates ord" by simp
  have ne: "?x \<noteq> ?y" by simp
  from backward_twice_mul_leaves[OF wf ord lf ne] obtain h' z h1 h2 where
    *: "mul ?L ?x (Node ?y) = (h', z)" "backward ord h' z = (h1, None)"
      "backward ord h1 z = (h2, None)"
      "grad (h1 ! ?x) = py_add (grad (?L ! ?x)) (data (?L ! ?y))"
      "grad (h2 ! ?x) = py_add (py_add (grad (?L ! ?x)) (data (?L ! ?y))) (data (?L ! ?y))"
      "data (h2 ! ?y) = data (?L ! ?y)" "grad (h1 ! z) = Float 1" "grad (h2 ! z) = Float 1"
    by blast
  from *(4,5,6) have "grad (h1 ! ?x) = Float b" "grad (h2 ! ?x) = Float (2 * b)"
    "data (h2 ! ?y) = Float b"
    unfolding v by simp_all
  with *(1,2,3,7,8)
  show "\<exists>h' z h1 h2.
         mul (new_leaves h [a, b]) (length h) (Node (Suc (length h))) = (h', z) \<and>
         backward ord h' z = (h1, None) \<and> backward ord h1 z = (h2, None) \<and>
         grad (h1 ! length h) = Float b \<and> grad (h2 ! length h) = Float (2 * b) \<and>
         data (h2 ! Suc (length h)) = Float b \<and>
         grad (h1 ! z) = Float 1 \<and> grad (h2 ! z) = Float 1"
    by blast
qed

text \<open>
  The claim at \<^verbatim>\<open>x = Value(2); y = Value(3); z = x * y\<close>: the gradient of \<^verbatim>\<open>x\<close>
  is 3 after one call and 6 after two, also when another node was made before
  \<^verbatim>\<open>x\<close>; and the rule of \<^verbatim>\<open>z\<close>, run with the gradient of \<^verbatim>\<open>z\<close> larger by 5,
  leaves it larger by 5.
\<close>

theorem gradient_accumulates_witness:
  "(held_by (MulBackward 0 1 2) 2 \<and> (0 :: nat) \<noteq> 2) \<and>
   call (add_grad (fst (mul (new_leaves [] [2, 3]) 0 (Node 1))) 0 (Float 5)) (MulBackward 0 1 2) =
     (case call (fst (mul (new_leaves [] [2, 3]) 0 (Node 1))) (MulBackward 0 1 2) of
        Inl e \<Rightarrow> Inl e | Inr h' \<Rightarrow> Inr (add_grad h' 0 (Float 5))) \<and>
   2 \<notin> operands (MulBackward 0 1 2) \<and>
   2 < length (fst (mul (new_leaves [] [2, 3]) 0 (Node 1))) \<and>
   (\<exists>h1 h2.
      call (add_grad (fst (mul (new_leaves [] [2, 3]) 0 (Node 1))) 2 (Float 5))
        (MulBackward 0 1 2) = Inr h2 \<and>
      call (fst (mul (new_leaves [] [2, 3]) 0 (Node 1))) (MulBackward 0 1 2) = Inr h1 \<and>
      grad (h2 ! 2) = py_add (grad (h1 ! 2)) (Float 5) \<and> grad (h1 ! 2) = Float 0) \<and>
   v_backward (fst (mul (new_leaves [] [2, 3]) 0 (Node 1)) ! 2) = MulBackward 0 1 2 \<and>
   grad (seed (fst (mul (new_leaves [] [2, 3]) 0 (Node 1))) 2 ! 2) = Float 1 \<and>
   (well_formed (fst (mul (new_leaves [] [2, 3]) 0 (Node 1))) \<and> iterates by_address) \<and>
   grad (fst (backward by_address (fst (mul (new_leaves [] [2, 3]) 0 (Node 1))) 2) ! 2) = Float 1 \<and>
   (well_formed (new_leaves [] [2, 3]) \<and> leaf (new_leaves [] [2, 3]) 0 \<and>
    leaf (new_leaves [] [2, 3]) 1 \<and> (0 :: nat) \<noteq> 1) \<and>
   (\<exists>h' z h1 h2. mul (new_leaves [] [2, 3]) 0 (Node 1) = (h', z) \<and>
      backward by_address h' z = (h1, None) \<and> backward by_address h1 z = (h2, None) \<and>
      grad (h1 ! 0) = Float 3 \<and> grad (h2 ! 0) = Float 6 \<and>
      grad (h1 ! z) = Float 1 \<and> grad (h2 ! z) = Float 1) \<and>
   (held_by (v_backward (fst (mul (new_leaves [] [2, 3]) 0 (Node 1)) ! 2)) 2 \<and>
    2 \<notin> operands (v_backward (fst (mul (new_leaves [] [2, 3]) 0 (Node 1)) ! 2))) \<and>
   well_formed (new_leaves [] [7]) \<and>
   (\<exists>h' z h1 h2. mul (new_leaves (new_leaves [] [7]) [2, 3]) 1 (Node 2) = (h', z) \<and>
      backward by_address h' z = (h1, None) \<and> backward by_address h1 z = (h2, None) \<and>
      grad (h1 ! 1) = Float 3 \<and> grad (h2 ! 1) = Float 6 \<and>
      grad (h1 ! z) = Float 1 \<and> grad (h2 ! z) = Float 1)"
proof -
  let ?L = "new_leaves [] [2, 3]"
  let ?H = "fst (mul ?L 0 (Node 1))"
  let ?f = "MulBackward 0 1 2"
  have a: "held_by ?f 2 \<and> (0 :: nat) \<noteq> 2" by simp
  have a': "2 \<notin> operands ?f" by simp
  have b: "2 < length ?H" by code_simp
  have c: "well_formed ?H" by code_simp
  have d: "well_formed ?L \<and> leaf ?L 0 \<and> leaf ?L 1 \<and> (0 :: nat) \<noteq> 1" by code_simp
  have g: "grad (?L ! 0) = Float 0" "data (?L ! 1) = Float 3" by code_simp+
  have vb: "v_backward (?H ! 2) = ?f" by code_simp
  have g2: "grad (?H ! 2) = Float 0" by code_simp
  note T1 = gradient_accumulates [where f = ?f and v = 2 and u = 0 and c = "Float 5"
      and h = ?H and r = 2 and ord = by_address and x = 0 and y = 1]
  note T2 = gradient_accumulates [where f = ?f and v = 2 and u = 2 and c = "Float 5"
      and h = ?H and r = 2 and ord = by_address and x = 0 and y = 1]
  note T3 = gradient_accumulates [where f = Noop and v = 0 and u = 1 and c = "Float 0"
      and h = ?L and r = 0 and ord = by_address and x = 0 and y = 1]
  from T1 a have 1: "call (add_grad ?H 0 (Float 5)) ?f =
     (case call ?H ?f of Inl e \<Rightarrow> Inl e | Inr h' \<Rightarrow> Inr (add_grad h' 0 (Float 5)))" by blast
  obtain k2 where k2: "call (add_grad ?H 2 (Float 5)) ?f = Inr k2" by (simp add: Let_def)
  from T2 a a' b have "case call (add_grad ?H 2 (Float 5)) ?f of
         Inl e \<Rightarrow> call ?H ?f = Inl e
       | Inr h2 \<Rightarrow> (\<exists>h1. call ?H ?f = Inr h1 \<and>
           grad (h2 ! 2) = py_add (grad (h1 ! 2)) (Float 5))"
    by blast
  with k2 obtain k1 where k1: "call ?H ?f = Inr k1"
    "grad (k2 ! 2) = py_add (grad (k1 ! 2)) (Float 5)"
    by auto
  from T2 k1(1) a' have "grad (k1 ! 2) = grad (?H ! 2)" by blast
  with g2 k1 k2 have 2: "\<exists>h1 h2. call (add_grad ?H 2 (Float 5)) ?f = Inr h2 \<and>
      call ?H ?f = Inr h1 \<and> grad (h2 ! 2) = py_add (grad (h1 ! 2)) (Float 5) \<and>
      grad (h1 ! 2) = Float 0"
    by (simp del: call.simps)
  from T1 b have 3: "grad (seed ?H 2 ! 2) = Float 1" by blast
  from T1 b c iterates_by_address
  have 4: "grad (fst (backward by_address ?H 2) ! 2) = Float 1" by blast
  from T3 d iterates_by_address
  have "\<exists>h' z h1 h2. mul ?L 0 (Node 1) = (h', z) \<and>
      backward by_address h' z = (h1, None) \<and> backward by_address h1 z = (h2, None) \<and>
      grad (h1 ! 0) = py_add (grad (?L ! 0)) (data (?L ! 1)) \<and>
      grad (h2 ! 0) = py_add (py_add (grad (?L ! 0)) (data (?L ! 1))) (data (?L ! 1)) \<and>
      data (h2 ! 1) = data (?L ! 1) \<and> grad (h1 ! z) = Float 1 \<and> grad (h2 ! z) = Float 1"
    by blast
  then have 5: "\<exists>h' z h1 h2. mul ?L 0 (Node 1) = (h', z) \<and>
      backward by_address h' z = (h1, None) \<and> backward by_address h1 z = (h2, None) \<and>
      grad (h1 ! 0) = Float 3 \<and> grad (h2 ! 0) = Float 6 \<and>
      grad (h1 ! z) = Float 1 \<and> grad (h2 ! z) = Float 1"
    unfolding g by auto
  from T1 b c have 6: "held_by (v_backward (?H ! 2)) 2 \<and> 2 \<notin> operands (v_backward (?H ! 2))"
    by blast
  let ?P = "new_leaves [] [7]"
  have w: "well_formed ?P" by code_simp
  have lP: "length ?P = 1" by (simp add: new_leaves_eq)
  note T4 = gradient_accumulates [where f = Noop and v = 0 and u = 1 and c = "Float 0"
      and h = ?P and r = 0 and ord = by_address and x = 0 and y = 1 and a = 2 and b = 3]
  from T4 w iterates_by_address
  have "\<exists>h' z h1 h2.
         mul (new_leaves ?P [2, 3]) (length ?P) (Node (Suc (length ?P))) = (h', z) \<and>
         backward by_address h' z = (h1, None) \<and> backward by_address h1 z = (h2, None) \<and>
         grad (h1 ! length ?P) = Float 3 \<and> grad (h2 ! length ?P) = Float (2 * 3) \<and>
         data (h2 ! Suc (length ?P)) = Float 3 \<and>
         grad (h1 ! z) = Float 1 \<and> grad (h2 ! z) = Float 1"
    by blast
  then have 7: "\<exists>h' z h1 h2. mul (new_leaves ?P [2, 3]) 1 (Node 2) = (h', z) \<and>
      backward by_address h' z = (h1, None) \<and> backward by_address h1 z = (h2, None) \<and>
      grad (h1 ! 1) = Float 3 \<and> grad (h2 ! 1) = Float 6 \<and>
      grad (h1 ! z) = Float 1 \<and> grad (h2 ! z) = Float 1"
    unfolding lP Suc_1 by auto
  from a a' b c d vb 1 2 3 4 5 6 w 7 iterates_by_address show ?thesis
    by (intro conjI) blast+
qed

section \<open>The composite operations\<close>

text \<open>
  Claim C6: the composite operations are the compositions the specification
  names, negate(a) = multiply(a, -1), subtract(a, b) = add(a, negate(b)) and
  divide(a, b) = multiply(a, power(b, -1)).  For two different leaves \<open>a\<close> and
  \<open>b\<close> with gradients initially 0, subtract(a, b) has value
  \<open>a.value - b.value\<close>, and backward from it returns without an exception and
  yields \<open>a.gradient = 1\<close> and \<open>b.gradient = -1\<close>.  When the values of the two
  leaves are 10 and 5, divide(a, b) has value 2, and backward from it returns
  without an exception and yields \<open>a.gradient = 0.2\<close> and \<open>b.gradient = -0.4\<close>.
\<close>

theorem composite_operations:
  "neg h a = spec_negate h a \<and>
   sub h a (Node b) = spec_subtract h a b \<and>
   truediv h a (Node b) = spec_divide h a b \<and>
   (well_formed h \<and> iterates ord \<and> leaf h a \<and> leaf h b \<and> a \<noteq> b \<and>
    grad (h ! a) = Float 0 \<and> grad (h ! b) = Float 0 \<longrightarrow>
      (\<exists>h' z hf. sub h a (Node b) = (h', z) \<and>
         to_complex (data (h' ! z)) = to_complex (data (h ! a)) - to_complex (data (h ! b)) \<and>
         (\<forall>x y. data (h ! a) = Float x \<and> data (h ! b) = Float y \<longrightarrow>
            data (h' ! z) = Float (x - y)) \<and>
         backward ord h' z = (hf, None) \<and>
         grad (hf ! a) = Float 1 \<and> grad (hf ! b) = Float (- 1)) \<and>
      (data (h ! a) = Float 10 \<and> data (h ! b) = Float 5 \<longrightarrow>
         (\<exists>h' z hf. truediv h a (Node b) = (h', Inr z) \<and>
            data (h' ! z) = Float 2 \<and>
            backward ord h' z = (hf, None) \<and>
            grad (hf ! a) = Float (1 / 5) \<and> grad (hf ! b) = Float (- (2 / 5)))))"
proof (intro conjI impI)
  show "neg h a = spec_negate h a" by (simp add: neg_def spec_negate_def)
  show "sub h a (Node b) = spec_subtract h a b"
    by (simp add: spec_subtract_def spec_negate_def neg_def)
  show "truediv h a (Node b) = spec_divide h a b"
    by (simp add: spec_divide_def del: pow.simps split: prod.splits sum.splits)
next
  assume "well_formed h \<and> iterates ord \<and> leaf h a \<and> leaf h b \<and> a \<noteq> b \<and>
    grad (h ! a) = Float 0 \<and> grad (h ! b) = Float 0"
  then obtain h' z hf where
    *: "sub h a (Node b) = (h', z)"
      "data (h' ! z) = py_add (data (h ! a)) (py_mul (data (h ! b)) (Float (- 1)))"
      "backward ord h' z = (hf, None)" "grad (hf ! a) = Float 1" "grad (hf ! b) = Float (- 1)"
    using sub_leaves[of h ord a b] by blast
  have "to_complex (data (h' ! z)) = to_complex (data (h ! a)) - to_complex (data (h ! b))"
    unfolding *(2) by (rule py_sub_value)
  moreover have "\<forall>x y. data (h ! a) = Float x \<and> data (h ! b) = Float y \<longrightarrow>
      data (h' ! z) = Float (x - y)"
    unfolding *(2) by (simp add: py_sub_value)
  ultimately show "\<exists>h' z hf. sub h a (Node b) = (h', z) \<and>
         to_complex (data (h' ! z)) = to_complex (data (h ! a)) - to_complex (data (h ! b)) \<and>
         (\<forall>x y. data (h ! a) = Float x \<and> data (h ! b) = Float y \<longrightarrow>
            data (h' ! z) = Float (x - y)) \<and>
         backward ord h' z = (hf, None) \<and>
         grad (hf ! a) = Float 1 \<and> grad (hf ! b) = Float (- 1)"
    using *(1,3,4,5) by blast
next
  assume hyp: "well_formed h \<and> iterates ord \<and> leaf h a \<and> leaf h b \<and> a \<noteq> b \<and>
    grad (h ! a) = Float 0 \<and> grad (h ! b) = Float 0"
    and d: "data (h ! a) = Float 10 \<and> data (h ! b) = Float 5"
  have fits: "(5 :: real) \<noteq> 0" "\<not> too_large (1 / 5)" "\<not> too_large (1 / 5\<^sup>2)"
    by (simp, (rule not_too_large_16, simp)+)
  from hyp d fits obtain h' z hf where
    *: "truediv h a (Node b) = (h', Inr z)" "data (h' ! z) = Float (10 * (1 / 5))"
      "backward ord h' z = (hf, None)" "grad (hf ! a) = Float (1 / 5)"
      "grad (hf ! b) = Float (10 * (- 1 * (1 / 5\<^sup>2)))"
    using truediv_leaves[of h ord a b 10 5] by blast
  have "(10 * (1 / 5) :: real) = 2" "(10 * (- 1 * (1 / 5\<^sup>2)) :: real) = - (2 / 5)"
    by (simp_all add: power2_eq_square)
  with * show "\<exists>h' z hf. truediv h a (Node b) = (h', Inr z) \<and>
            data (h' ! z) = Float 2 \<and>
            backward ord h' z = (hf, None) \<and>
            grad (hf ! a) = Float (1 / 5) \<and> grad (hf ! b) = Float (- (2 / 5))"
    by (simp del: truediv.simps)
qed

text \<open>
  The claim at \<^verbatim>\<open>x = Value(10); y = Value(5)\<close>: \<^verbatim>\<open>x - y\<close> has value 5 and
  backward from it leaves the gradients 1 and -1; \<^verbatim>\<open>x / y\<close> has value 2 and
  backward from it leaves the gradients 0.2 and -0.4.
\<close>

theorem composite_operations_witness:
  "(well_formed (new_leaves [] [10, 5]) \<and> iterates by_address \<and>
    leaf (new_leaves [] [10, 5]) 0 \<and> leaf (new_leaves [] [10, 5]) 1 \<and> (0 :: nat) \<noteq> 1 \<and>
    grad (new_leaves [] [10, 5] ! 0) = Float 0 \<and> grad (new_leaves [] [10, 5] ! 1) = Float 0) \<and>
   (data (new_leaves [] [10, 5] ! 0) = Float 10 \<and> data (new_leaves [] [10, 5] ! 1) = Float 5) \<and>
   (\<exists>h' z hf. sub (new_leaves [] [10, 5]) 0 (Node 1) = (h', z) \<and> data (h' ! z) = Float 5 \<and>
      backward by_address h' z = (hf, None) \<and>
      grad (hf ! 0) = Float 1 \<and> grad (hf ! 1) = Float (- 1)) \<and>
   (\<exists>h' z hf. truediv (new_leaves [] [10, 5]) 0 (Node 1) = (h', Inr z) \<and>
      data (h' ! z) = Float 2 \<and> backward by_address h' z = (hf, None) \<and>
      grad (hf ! 0) = Float (1 / 5) \<and> grad (hf ! 1) = Float (- (2 / 5)))"
proof -
  let ?h = "new_leaves [] [10, 5]"
  have hyp: "well_formed ?h \<and> iterates by_address \<and> leaf ?h 0 \<and> leaf ?h 1 \<and> (0 :: nat) \<noteq> 1 \<and>
    grad (?h ! 0) = Float 0 \<and> grad (?h ! 1) = Float 0"
  proof (intro conjI)
    show "iterates by_address" by (rule iterates_by_address)
    show "well_formed ?h" by code_simp
    show "leaf ?h 0" "leaf ?h 1" by code_simp+
    show "grad (?h ! 0) = Float 0" "grad (?h ! 1) = Float 0" by code_simp+
    show "(0 :: nat) \<noteq> 1" by simp
  qed
  have d: "data (?h ! 0) = Float 10 \<and> data (?h ! 1) = Float 5" by code_simp
  note T = composite_operations [where h = ?h and a = 0 and b = 1 and ord = by_address]
  from T hyp obtain h' z hf where
    *: "sub ?h 0 (Node 1) = (h', z)"
      "\<forall>x y. data (?h ! 0) = Float x \<and> data (?h ! 1) = Float y \<longrightarrow>
         data (h' ! z) = Float (x - y)"
      "backward by_address h' z = (hf, None)" "grad (hf ! 0) = Float 1"
      "grad (hf ! 1) = Float (- 1)"
    by blast
  from *(2) d have "data (h' ! z) = Float (10 - 5)" by blast
  then have "data (h' ! z) = Float 5" by simp
  with *(1,3,4,5)
  have A: "\<exists>h' z hf. sub ?h 0 (Node 1) = (h', z) \<and> data (h' ! z) = Float 5 \<and>
      backward by_address h' z = (hf, None) \<and>
      grad (hf ! 0) = Float 1 \<and> grad (hf ! 1) = Float (- 1)"
    by blast
  from T hyp d
  have B: "\<exists>h' z hf. truediv ?h 0 (Node 1) = (h', Inr z) \<and>
      data (h' ! z) = Float 2 \<and> backward by_address h' z = (hf, None) \<and>
      grad (hf ! 0) = Float (1 / 5) \<and> grad (hf ! 1) = Float (- (2 / 5))"
    by blast
  from hyp d A B show ?thesis by blast
qed

end
